theory Spec2Isabelle
  imports Complex_Main "HOL-Library.Sublist"
begin

section \<open>Strings\<close>

text \<open>
  Titles, sources and resolutions are JavaScript strings. They are modelled as
  \<^typ>\<open>string\<close>; the model covers ASCII text, on which \<open>toUpperCase\<close> maps the
  letters a..z to A..Z and leaves every other character alone.
  \<open>s.includes(t)\<close> is \<^term>\<open>sublist t s\<close>.
\<close>

definition upper_char :: "char \<Rightarrow> char" where
  "upper_char c =
     (case map_of (zip ''abcdefghijklmnopqrstuvwxyz'' ''ABCDEFGHIJKLMNOPQRSTUVWXYZ'') c of
        Some u \<Rightarrow> u
      | None \<Rightarrow> c)"

definition toUpperCase :: "string \<Rightarrow> string" where
  "toUpperCase s = map upper_char s"

definition str_includes :: "string \<Rightarrow> string \<Rightarrow> bool" where
  "str_includes s t = sublist t s"

text \<open>The truthiness of an optional string: \<open>undefined\<close> and \<open>""\<close> are falsy.\<close>

definition truthy_str :: "string option \<Rightarrow> bool" where
  "truthy_str v = (case v of None \<Rightarrow> False | Some s \<Rightarrow> s \<noteq> [])"

text \<open>The string held by an optional string; it is read only where the value is truthy.\<close>

definition str_of :: "string option \<Rightarrow> string" where
  "str_of v = (case v of None \<Rightarrow> [] | Some s \<Rightarrow> s)"

text \<open>
  The class \<open>\s\<close> of a regular expression, which is also what \<open>trim\<close> removes: of the
  characters below 256 these are the six ASCII ones and the no-break space U+00A0.
\<close>

definition is_space :: "char \<Rightarrow> bool" where
  "is_space c =
     (c \<in> set [CHR '' '', CHR 0x09, CHR 0x0A, CHR 0x0B, CHR 0x0C, CHR 0x0D, CHR 0xA0])"

definition trim :: "string \<Rightarrow> string" where
  "trim s = rev (dropWhile is_space (rev (dropWhile is_space s)))"

text \<open>Decimal numerals: \<open>String(n)\<close> of a natural number, and the value of a run of digits.\<close>

definition digit_chars :: string where
  "digit_chars = ''0123456789''"

definition is_digit :: "char \<Rightarrow> bool" where
  "is_digit c = (c \<in> set digit_chars)"

definition digit_char :: "nat \<Rightarrow> char" where
  "digit_char d = digit_chars ! (d mod 10)"

fun dec :: "nat \<Rightarrow> string" where
  "dec n = (if n < 10 then [digit_char n] else dec (n div 10) @ [digit_char (n mod 10)])"

declare dec.simps [simp del]

definition digit_val :: "char \<Rightarrow> nat" where
  "digit_val c =
     (case map_of (zip digit_chars [0, 1, 2, 3, 4, 5, 6, 7, 8, 9]) c of Some d \<Rightarrow> d | None \<Rightarrow> 0)"

definition digits_val :: "string \<Rightarrow> nat" where
  "digits_val ds = foldl (\<lambda>a c. 10 * a + digit_val c) 0 ds"

text \<open>
  Numbers are doubles. A finite double is modelled by its value, a rational, and an
  operation on doubles by the exact operation followed by \<open>to_double\<close>, the rounding of
  IEEE 754 binary64 to the nearest double, to the even one of two that are equally near:
  the value is cut to 53 bits at the exponent of its binade, which is not less than
  -1074. The exponent has no upper bound here; the source turns a value beyond the
  largest double, \<open>max_double\<close>, into \<open>Infinity\<close>, for which the rationals have no value,
  and the statements about sizes are made for values up to \<open>max_double\<close>.
\<close>

definition round_half_even :: "rat \<Rightarrow> int" where
  "round_half_even x =
     (let f = \<lfloor>x\<rfloor>; d = x - of_int f
      in if d < 1 / 2 then f else if 1 / 2 < d then f + 1 else if even f then f else f + 1)"

text \<open>The exponent of the power of two at or below a positive number.\<close>

function flog2 :: "rat \<Rightarrow> int" where
  "flog2 q = (if q \<le> 0 then 0
              else if 2 \<le> q then flog2 (q / 2) + 1
              else if q < 1 then flog2 (2 * q) - 1
              else 0)"
  by pat_completeness auto
termination
proof (relation "measure (\<lambda>q. nat \<lfloor>q\<rfloor> + 2 * nat \<lceil>1 / q\<rceil>)")
  show "wf (measure (\<lambda>q. nat \<lfloor>q\<rfloor> + 2 * nat \<lceil>1 / q\<rceil>))" by simp
next
  fix q :: rat
  assume a: "\<not> q \<le> 0" "2 \<le> q"
  have 1: "\<lfloor>q / 2\<rfloor> < \<lfloor>q\<rfloor>" using a by (simp add: floor_less_iff) linarith
  have "0 < 1 / q" "1 / q \<le> 1" "0 < 1 / (q / 2)" "1 / (q / 2) \<le> 1"
    using a by (simp_all add: field_simps)
  then have 2: "\<lceil>1 / q\<rceil> = 1" "\<lceil>1 / (q / 2)\<rceil> = 1" by (simp_all add: ceiling_eq_iff)
  have "0 \<le> \<lfloor>q / 2\<rfloor>" using a by simp
  with 1 2 a show "(q / 2, q) \<in> measure (\<lambda>q. nat \<lfloor>q\<rfloor> + 2 * nat \<lceil>1 / q\<rceil>)"
    by simp
next
  fix q :: rat
  assume a: "\<not> q \<le> 0" "\<not> 2 \<le> q" "q < 1"
  have f: "\<lfloor>q\<rfloor> = 0" "\<lfloor>2 * q\<rfloor> \<le> 1" using a by (simp_all add: floor_eq_iff floor_le_iff)
  have "1 < 1 / q" using a by (simp add: field_simps)
  then have c: "2 \<le> \<lceil>1 / q\<rceil>" by linarith
  have "1 / (2 * q) \<le> of_int (\<lceil>1 / q\<rceil> - 1)"
  proof -
    have "1 / q \<le> of_int \<lceil>1 / q\<rceil>" by (rule le_of_int_ceiling)
    then have "1 / (2 * q) \<le> of_int \<lceil>1 / q\<rceil> / 2" by simp
    also have "\<dots> \<le> of_int (\<lceil>1 / q\<rceil> - 1)" using c by simp
    finally show ?thesis .
  qed
  then have le: "\<lceil>1 / (2 * q)\<rceil> \<le> \<lceil>1 / q\<rceil> - 1" by (rule ceiling_le)
  have n1: "nat \<lfloor>2 * q\<rfloor> \<le> 1" using f(2) by linarith
  have n2: "nat \<lceil>1 / (2 * q)\<rceil> + 1 \<le> nat \<lceil>1 / q\<rceil>" using le c by linarith
  show "(2 * q, q) \<in> measure (\<lambda>q. nat \<lfloor>q\<rfloor> + 2 * nat \<lceil>1 / q\<rceil>)"
    unfolding in_measure f(1) using n1 n2 by linarith
qed

declare flog2.simps [simp del]

definition binade :: "rat \<Rightarrow> int" where
  "binade q = max (- 1074) (flog2 q - 52)"

definition to_double :: "rat \<Rightarrow> rat" where
  "to_double q =
     (if q \<le> 0 then 0
      else of_int (round_half_even (q / power_int 2 (binade q))) * power_int 2 (binade q))"

definition max_double :: rat where
  "max_double = (2 ^ 53 - 1) * 2 ^ 971"

text \<open>\<open>a * b\<close> on numbers that are not negative.\<close>

definition multiply :: "rat \<Rightarrow> rat \<Rightarrow> rat" where
  "multiply a b = to_double (a * b)"

text \<open>
  \<open>parseInt(s, 10)\<close> and \<open>parseFloat(s)\<close> on unsigned decimal text: the longest prefix
  of digits (for \<open>parseFloat\<close> with an optional fraction) is read; \<open>None\<close> is \<open>NaN\<close>.
  The patterns whose captures are parsed hold nothing but such text. The value of
  \<open>parseFloat\<close> is the double nearest to the decimal value.
\<close>

definition parseInt :: "string \<Rightarrow> nat option" where
  "parseInt s = (let ds = takeWhile is_digit s in if ds = [] then None else Some (digits_val ds))"

definition parseFloat :: "string \<Rightarrow> rat option" where
  "parseFloat s =
     (let ip = takeWhile is_digit s;
          r = dropWhile is_digit s;
          fp = (case r of [] \<Rightarrow> [] | c # r' \<Rightarrow> if c = CHR ''.'' then takeWhile is_digit r' else [])
      in if ip = [] \<and> fp = [] then None
         else Some (to_double (of_nat (digits_val ip) + of_nat (digits_val fp) / 10 ^ length fp)))"

section \<open>Regular expressions\<close>

text \<open>
  The patterns of the source are kept as data and run by a backtracking matcher that
  follows the ECMAScript semantics: alternatives are tried in order, quantifiers are
  greedy, and a search takes the leftmost position at which the pattern matches.
  \<open>Chars w\<close> is the literal text \<open>w\<close>, \<open>Cls cs\<close> one character out of \<open>cs\<close>,
  \<open>Space\<close> is \<open>\s\<close>, \<open>Bol\<close> and \<open>Eol\<close> are \<open>^\<close> and \<open>$\<close>, \<open>WordB\<close> is \<open>\b\<close>,
  \<open>NotAfter cs\<close> is the lookbehind \<open>(?<![cs])\<close>, \<open>Rep lo hi r\<close> is \<open>r{lo,hi}\<close>,
  \<open>Grp n r\<close> is the \<open>n\<close>-th capturing group and \<open>NegLook r\<close> is \<open>(?!r)\<close>.
\<close>

datatype regex =
    Eps
  | Chars string
  | Cls string
  | Space
  | Bol
  | Eol
  | WordB
  | NotAfter string
  | Seq regex regex
  | Alt regex regex
  | Star regex
  | Rep nat nat regex
  | Grp nat regex
  | NegLook regex

definition seqs :: "regex list \<Rightarrow> regex" where
  "seqs rs = foldr Seq rs Eps"

definition alts :: "regex list \<Rightarrow> regex" where
  "alts rs = (case rs of [] \<Rightarrow> NegLook Eps | _ \<Rightarrow> foldr Alt (butlast rs) (last rs))"

definition Opt :: "regex \<Rightarrow> regex" where
  "Opt r = Alt r Eps"

definition Plus :: "regex \<Rightarrow> regex" where
  "Plus r = Seq r (Star r)"

definition Digit :: regex where
  "Digit = Cls digit_chars"

definition alnum_chars :: string where
  "alnum_chars = ''abcdefghijklmnopqrstuvwxyzABCDEFGHIJKLMNOPQRSTUVWXYZ0123456789''"

definition is_word_char :: "char \<Rightarrow> bool" where
  "is_word_char c = (c \<in> set (CHR ''_'' # alnum_chars))"

text \<open>
  A matcher state is the character before the current position (\<open>None\<close> at the start of
  the text), the text that is left, and the captures made so far, the latest first.
\<close>

type_synonym mstate = "char option \<times> string \<times> (nat \<times> string) list"

text \<open>With the flag \<open>i\<close> two characters are compared by their upper-case forms.\<close>

definition char_eq :: "bool \<Rightarrow> char \<Rightarrow> char \<Rightarrow> bool" where
  "char_eq ic a b = (if ic then upper_char a = upper_char b else a = b)"

fun match_chars :: "bool \<Rightarrow> string \<Rightarrow> char option \<Rightarrow> string \<Rightarrow> (char option \<times> string) option" where
  "match_chars ic [] p s = Some (p, s)"
| "match_chars ic (c # cs) p [] = None"
| "match_chars ic (c # cs) p (x # xs) =
     (if char_eq ic c x then match_chars ic cs (Some x) xs else None)"

text \<open>
  \<open>r*\<close>: one more round of \<open>r\<close> first, then none. A round that consumes nothing is
  refused, so there are at most as many rounds as characters left, which is the bound
  \<open>k\<close> the matcher starts from.
\<close>

fun star_iter :: "(mstate \<Rightarrow> mstate list) \<Rightarrow> nat \<Rightarrow> mstate \<Rightarrow> mstate list" where
  "star_iter f 0 st = [st]"
| "star_iter f (Suc k) st =
     concat (map (\<lambda>st'. if length (fst (snd st')) < length (fst (snd st))
                          then star_iter f k st' else [])
                 (f st)) @ [st]"

fun rep_iter :: "(mstate \<Rightarrow> mstate list) \<Rightarrow> nat \<Rightarrow> nat \<Rightarrow> mstate \<Rightarrow> mstate list" where
  "rep_iter f lo 0 st = [st]"
| "rep_iter f lo (Suc hi) st =
     concat (map (rep_iter f (lo - 1) hi) (f st)) @ (if lo = 0 then [st] else [])"

definition at_word_boundary :: "char option \<Rightarrow> string \<Rightarrow> bool" where
  "at_word_boundary p s =
     ((case p of None \<Rightarrow> False | Some c \<Rightarrow> is_word_char c)
      \<noteq> (case s of [] \<Rightarrow> False | c # _ \<Rightarrow> is_word_char c))"

text \<open>All the ways \<open>r\<close> matches at a state, in the order backtracking tries them.\<close>

fun rmatch :: "bool \<Rightarrow> regex \<Rightarrow> mstate \<Rightarrow> mstate list" where
  "rmatch ic Eps st = [st]"
| "rmatch ic (Chars w) (p, s, caps) =
     (case match_chars ic w p s of None \<Rightarrow> [] | Some (p', s') \<Rightarrow> [(p', s', caps)])"
| "rmatch ic (Cls cs) (p, s, caps) =
     (case s of [] \<Rightarrow> []
      | x # xs \<Rightarrow> if list_ex (char_eq ic x) cs then [(Some x, xs, caps)] else [])"
| "rmatch ic Space (p, s, caps) =
     (case s of [] \<Rightarrow> [] | x # xs \<Rightarrow> if is_space x then [(Some x, xs, caps)] else [])"
| "rmatch ic Bol (p, s, caps) = (if p = None then [(p, s, caps)] else [])"
| "rmatch ic Eol (p, s, caps) = (if s = [] then [(p, s, caps)] else [])"
| "rmatch ic WordB (p, s, caps) = (if at_word_boundary p s then [(p, s, caps)] else [])"
| "rmatch ic (NotAfter cs) (p, s, caps) =
     (case p of None \<Rightarrow> [(p, s, caps)]
      | Some c \<Rightarrow> if list_ex (char_eq ic c) cs then [] else [(p, s, caps)])"
| "rmatch ic (Seq a b) st = concat (map (\<lambda>st'. rmatch ic b st') (rmatch ic a st))"
| "rmatch ic (Alt a b) st = rmatch ic a st @ rmatch ic b st"
| "rmatch ic (Star r) st = star_iter (\<lambda>st'. rmatch ic r st') (length (fst (snd st))) st"
| "rmatch ic (Rep lo hi r) st = rep_iter (\<lambda>st'. rmatch ic r st') lo hi st"
| "rmatch ic (Grp n r) (p, s, caps) =
     map (\<lambda>(p', s', caps'). (p', s', (n, take (length s - length s') s) # caps'))
         (rmatch ic r (p, s, caps))"
| "rmatch ic (NegLook r) st = (if rmatch ic r st = [] then [st] else [])"

text \<open>
  A pattern is a regular expression with its flag \<open>i\<close>. The result of a successful
  search: the text before the match, the matched text (\<open>match[0]\<close>), the captures,
  and where the match ended.
\<close>

type_synonym pattern = "bool \<times> regex"

record match_result =
  m_before :: string
  m_text :: string
  m_groups :: "(nat \<times> string) list"
  m_prev :: "char option"
  m_rest :: string

fun search :: "pattern \<Rightarrow> char option \<Rightarrow> string \<Rightarrow> match_result option" where
  "search pat p [] =
     (case rmatch (fst pat) (snd pat) (p, [], []) of
        [] \<Rightarrow> None
      | (p', s', caps) # _ \<Rightarrow>
          Some \<lparr>m_before = [], m_text = [], m_groups = caps, m_prev = p', m_rest = s'\<rparr>)"
| "search pat p (c # cs) =
     (case rmatch (fst pat) (snd pat) (p, c # cs, []) of
        [] \<Rightarrow> map_option (\<lambda>m. m\<lparr>m_before := c # m_before m\<rparr>) (search pat (Some c) cs)
      | (p', s', caps) # _ \<Rightarrow>
          Some \<lparr>m_before = [], m_text = take (length (c # cs) - length s') (c # cs),
                m_groups = caps, m_prev = p', m_rest = s'\<rparr>)"

text \<open>\<open>regex.exec(s)\<close> from \<open>lastIndex = 0\<close>, and \<open>regex.test(s)\<close>.\<close>

definition exec :: "pattern \<Rightarrow> string \<Rightarrow> match_result option" where
  "exec pat s = search pat None s"

definition test :: "pattern \<Rightarrow> string \<Rightarrow> bool" where
  "test pat s = (exec pat s \<noteq> None)"

text \<open>\<open>match[n]\<close> of a result, \<open>None\<close> for \<open>undefined\<close>; \<open>match[1] || match[0]\<close>.\<close>

definition capture :: "match_result \<Rightarrow> nat \<Rightarrow> string option" where
  "capture m n = map_of (m_groups m) n"

definition group1_or_text :: "match_result \<Rightarrow> string" where
  "group1_or_text m = (if truthy_str (capture m 1) then str_of (capture m 1) else m_text m)"

text \<open>
  \<open>s.replace(regex, rep)\<close> for a pattern with the flag \<open>g\<close>: every match, from left to
  right, is replaced; after an empty match the search moves on by one character.
\<close>

function replace_from :: "pattern \<Rightarrow> string \<Rightarrow> char option \<Rightarrow> string \<Rightarrow> string" where
  "replace_from pat rep p [] =
     (case rmatch (fst pat) (snd pat) (p, [], []) of [] \<Rightarrow> [] | _ # _ \<Rightarrow> rep)"
| "replace_from pat rep p (c # cs) =
     (case rmatch (fst pat) (snd pat) (p, c # cs, []) of
        [] \<Rightarrow> c # replace_from pat rep (Some c) cs
      | (p', s', caps) # _ \<Rightarrow>
          if length s' < length (c # cs)
          then rep @ replace_from pat rep p' s'
          else rep @ c # replace_from pat rep (Some c) cs)"
  by pat_completeness auto
termination
  by (relation "measure (\<lambda>(pat, rep, p, s). length s)") auto

definition replace_all :: "pattern \<Rightarrow> string \<Rightarrow> string \<Rightarrow> string" where
  "replace_all pat rep s = replace_from pat rep None s"

text \<open>\<open>s.replace(regex, rep)\<close> for a pattern without the flag \<open>g\<close>: the first match only.\<close>

definition replace_first :: "pattern \<Rightarrow> string \<Rightarrow> string \<Rightarrow> string" where
  "replace_first pat rep s =
     (case exec pat s of None \<Rightarrow> s | Some m \<Rightarrow> m_before m @ rep @ m_rest m)"

text \<open>
  The loop \<open>while ((m = regex.exec(s)) !== null)\<close> over a pattern with the flag \<open>g\<close>:
  the successive matches, each as \<open>m[1] || m[0]\<close>.
\<close>

function matches_from :: "pattern \<Rightarrow> char option \<Rightarrow> string \<Rightarrow> string list" where
  "matches_from pat p [] =
     (case rmatch (fst pat) (snd pat) (p, [], []) of
        [] \<Rightarrow> []
      | (p', s', caps) # _ \<Rightarrow>
          [group1_or_text \<lparr>m_before = [], m_text = [], m_groups = caps, m_prev = p', m_rest = s'\<rparr>])"
| "matches_from pat p (c # cs) =
     (case rmatch (fst pat) (snd pat) (p, c # cs, []) of
        [] \<Rightarrow> matches_from pat (Some c) cs
      | (p', s', caps) # _ \<Rightarrow>
          group1_or_text \<lparr>m_before = [], m_text = take (length (c # cs) - length s') (c # cs),
                          m_groups = caps, m_prev = p', m_rest = s'\<rparr>
          # (if length s' < length (c # cs)
             then matches_from pat p' s'
             else matches_from pat (Some c) cs))"
  by pat_completeness auto
termination
  by (relation "measure (\<lambda>(pat, p, s). length s)") auto

definition match_all :: "pattern \<Rightarrow> string \<Rightarrow> string list" where
  "match_all pat s = matches_from pat None s"

section \<open>types.ts\<close>

text \<open>
  \<open>enum VideoQualityRank\<close> with the number each member is given; the comparisons
  of the pipeline (\<open>>=\<close>, \<open><\<close>, subtraction) are on these numbers.
\<close>

datatype VideoQualityRank =
    UHD_BLURAY | BLURAY_1080P | WEBDL_2160P | WEBDL_1080P | BLURAY_720P | WEBDL_720P
  | HDTV_1080P | DVD | HDTV_720P | SD | LOW_QUALITY | UNKNOWN

fun rankValue :: "VideoQualityRank \<Rightarrow> int" where
  "rankValue UHD_BLURAY = 10"
| "rankValue BLURAY_1080P = 9"
| "rankValue WEBDL_2160P = 8"
| "rankValue WEBDL_1080P = 7"
| "rankValue BLURAY_720P = 6"
| "rankValue WEBDL_720P = 5"
| "rankValue HDTV_1080P = 4"
| "rankValue DVD = 3"
| "rankValue HDTV_720P = 2"
| "rankValue SD = 1"
| "rankValue LOW_QUALITY = 0"
| "rankValue UNKNOWN = -1"

text \<open>
  \<open>interface ParsedMetadata\<close>: every field but \<open>originalTitle\<close> is optional.
  \<open>audioCodec\<close> is a string or an array of strings.
\<close>

datatype audio = AudioStr string | AudioArr "string list"

record ParsedMetadata =
  originalTitle :: string
  cleanedTitle :: "string option"
  year :: "nat option"
  resolution :: "string option"
  qualitySource :: "string option"
  videoCodec :: "string option"
  audioCodec :: "audio option"
  languages :: "string list option"
  isHDR :: "bool option"
  is3D :: "bool option"
  releaseGroup :: "string option"
  episodeInfo :: "string option"
  rawSize :: "string option"
  calculatedSize :: "rat option"
  seeders :: "int option"

section \<open>constants.ts\<close>

text \<open>
  \<open>REGEX_PATTERNS\<close>. Each pattern is written with its flag \<open>i\<close>; the flag \<open>g\<close> shows in
  the operation that runs the pattern. A class such as \<open>[\s.]\<close> is the alternative of \<open>\s\<close>
  and the listed characters.
\<close>

definition YEAR :: pattern where
  "YEAR = (False,
     seqs [WordB,
           Grp 1 (Seq (Alt (Seq (Chars ''19'') (Cls ''89'')) (Seq (Chars ''20'') (Cls ''012''))) Digit),
           WordB])"

definition RESOLUTION :: pattern where
  "RESOLUTION = (True,
     seqs [WordB,
           Grp 1 (alts [Chars ''4K'', Chars ''2160p'', Chars ''1080p'', Chars ''720p'',
                        Chars ''576p'', Chars ''480p'', Chars ''360p'', Chars ''SD'']),
           WordB])"

definition QUALITY_SOURCE :: pattern where
  "QUALITY_SOURCE = (True,
     seqs [WordB,
           Grp 1 (alts [
      Chars ''BluRay'', Chars ''Blu-Ray'', Chars ''BDRip'', Chars ''BRRip'',
      Chars ''WEB-DL'', Chars ''WEBDL'', Chars ''WEB-Rip'', Chars ''WEBRIP'',
      Chars ''WEB'', Chars ''HDRip'', Chars ''DVDRip'', Chars ''DVD-R'', Chars ''DVDScr'',
      Chars ''SCREENER'', Chars ''SCR'', Chars ''TS'', Chars ''TELESYNC'', Chars ''TC'',
      Chars ''TELECINE'', Chars ''CAM'', Chars ''HDTV'', Chars ''PDTV'', Chars ''SATRip'',
      Chars ''DSR'', Chars ''REMUX'', Chars ''Complete'', Chars ''REPACK'',
      Chars ''PROPER'']),
           WordB])"

definition VIDEO_CODEC :: pattern where
  "VIDEO_CODEC = (True,
     seqs [WordB,
           Grp 1 (alts [Seq (Chars ''x26'') (Cls ''45''),
                        seqs [Chars ''H'', Opt (Chars ''.''), Chars ''26'', Cls ''45''],
                        Chars ''HEVC'', Chars ''AV1'', Chars ''AVC'', Chars ''XViD'',
                        Chars ''DiVX'', Chars ''VP9'']),
           WordB])"

definition AUDIO_CODEC :: pattern where
  "AUDIO_CODEC = (True,
     seqs [WordB,
           Grp 1 (alts [Chars ''Atmos'', Chars ''TrueHD'',
                        Seq (Chars ''DTS-HD'')
                            (Opt (Seq (Opt (Alt Space (Cls ''.''))) (Chars ''MA''))),
                        Seq (Chars ''DTS'') (Opt (alts [Chars ''-ES'', Chars ''-EX'', Chars ''-X''])),
                        Chars ''Dolby Digital Plus'', Chars ''DD+'', Chars ''EAC3'', Chars ''AC3'',
                        Seq (Chars ''AAC'') (Opt (alts [Chars ''-LC'', Chars ''-HE''])),
                        Chars ''MP3'', Chars ''Opus'', Chars ''FLAC'', Chars ''PCM'', Chars ''Vorbis'',
                        seqs [Chars ''DD'', Opt (Chars ''+''), Opt (Chars ''P''), Chars ''5.1''],
                        seqs [Chars ''DD'', Opt (Chars ''+''), Opt (Chars ''P''), Chars ''7.1''],
                        Chars ''5.1'', Chars ''7.1'', Chars ''2.0'', Chars ''LiNE'', Chars ''AUD'',
                        Chars ''STEREO'']),
           WordB])"

definition HDR :: pattern where
  "HDR = (True,
     seqs [WordB,
           Grp 1 (alts [Seq (Chars ''HDR10'') (Opt (alts [Chars ''Plus'', Chars ''+''])),
                        Chars ''HDR'', Chars ''Dolby Vision'', Chars ''DV'', Chars ''HLG'']),
           WordB])"

definition THREE_D :: pattern where
  "THREE_D = (True, seqs [WordB, Grp 1 (Chars ''3D''), WordB])"

definition LANGUAGES :: pattern where
  "LANGUAGES = (True,
     seqs [WordB,
           Grp 1 (alts [
      Chars ''English'', Chars ''ENG'', Chars ''Spanish'', Chars ''SPA'', Chars ''ESP'',
      Chars ''French'', Chars ''FRE'', Chars ''FRA'', Chars ''FR'', Chars ''German'',
      Chars ''GER'', Chars ''DEU'', Chars ''DE'', Chars ''Italian'', Chars ''ITA'',
      Chars ''IT'', Chars ''Russian'', Chars ''RUS'', Chars ''RU'', Chars ''Japanese'',
      Chars ''JPN'', Chars ''JP'', Chars ''Korean'', Chars ''KOR'', Chars ''KO'',
      Chars ''Chinese'', Chars ''CHI'', Chars ''ZH'', Chars ''Mandarin'',
      Chars ''Cantonese'', Chars ''Hindi'', Chars ''HIN'', Chars ''HI'', Chars ''Tamil'',
      Chars ''TAM'', Chars ''TA'', Chars ''Telugu'', Chars ''TEL'', Chars ''TE'',
      Chars ''Malayalam'', Chars ''MAL'', Chars ''ML'',
      seqs [Chars ''Dual'', Alt Space (Cls ''.''), Chars ''Audio''],
      seqs [Chars ''Multi'', Alt Space (Cls ''.''), Chars ''Audio''],
      Chars ''VOSTFR'', Chars ''SUBFRENCH'', Chars ''ENGSUB'', Chars ''SUBBED'']),
           WordB])"

definition SEASON_EPISODE :: pattern where
  "SEASON_EPISODE = (True,
     alts [seqs [Cls ''Ss'', Grp 1 (Rep 1 3 Digit), Cls ''Ee'', Grp 2 (Rep 1 4 Digit),
                 Opt (seqs [Chars ''-'', Opt (Cls ''Ee''), Grp 3 (Rep 1 4 Digit)])],
           seqs [Cls ''Ss'', Grp 4 (Rep 1 3 Digit),
                 NegLook (alts [Digit, Chars ''p'', Chars ''K''])],
           seqs [Cls ''Ee'', Opt (Cls ''Pp''), Grp 5 (Rep 1 4 Digit),
                 NegLook (alts [Digit, Chars ''p'', Chars ''K''])],
           seqs [Chars ''PART'', Opt (Chars ''.''), Grp 6 (Rep 1 2 Digit)]])"

definition RELEASE_GROUP :: pattern where
  "RELEASE_GROUP = (True,
     seqs [Alt Bol (Alt Space (Cls ''.-_['')),
           Grp 1 (Seq (Plus (Cls alnum_chars))
                      (Opt (Seq (Chars ''-'') (Plus (Cls alnum_chars))))),
           Eol])"

definition size_units :: regex where
  "size_units = alts [Chars ''TB'', Chars ''GB'', Chars ''MB'', Chars ''KB'',
                      Chars ''TiB'', Chars ''GiB'', Chars ''MiB'', Chars ''KiB'']"

definition SIZE :: pattern where
  "SIZE = (True,
     seqs [Grp 1 (Seq (Plus Digit) (Opt (Seq (Chars ''.'') (Plus Digit)))),
           Star Space,
           Grp 2 size_units])"

definition LANGUAGE_MAP :: "(string \<times> string) list" where
  "LANGUAGE_MAP =
    [(''ENG'', ''English''), (''ENGLISH'', ''English''), (''EN'', ''English''), (''SPA'',
     ''Spanish''), (''ESPANOL'', ''Spanish''), (''ESP'', ''Spanish''), (''ES'',
     ''Spanish''), (''FRE'', ''French''), (''FRENCH'', ''French''), (''FRA'', ''French''),
     (''FR'', ''French''), (''GER'', ''German''), (''GERMAN'', ''German''), (''DEU'',
     ''German''), (''DE'', ''German''), (''ITA'', ''Italian''), (''ITALIAN'', ''Italian''),
     (''IT'', ''Italian''), (''RUS'', ''Russian''), (''RUSSIAN'', ''Russian''), (''RU'',
     ''Russian''), (''JPN'', ''Japanese''), (''JAPANESE'', ''Japanese''), (''JP'',
     ''Japanese''), (''KOR'', ''Korean''), (''KOREAN'', ''Korean''), (''KO'', ''Korean''),
     (''CHI'', ''Chinese''), (''CHINESE'', ''Chinese''), (''ZH'', ''Chinese''), (''HIN'',
     ''Hindi''), (''HINDI'', ''Hindi''), (''HI'', ''Hindi''), (''TAM'', ''Tamil''),
     (''TA'', ''Tamil''), (''TEL'', ''Telugu''), (''TE'', ''Telugu''), (''MAL'',
     ''Malayalam''), (''ML'', ''Malayalam''), (''DUALAUDIO'', ''Dual Audio''),
     (''MULTIAUDIO'', ''Multi Audio''), (''DUAL'', ''Dual Audio''), (''MULTI'',
     ''Multi Audio''), (''VOSTFR'', ''French (VOSTFR)''), (''SUBFRENCH'',
     ''French (Subbed)''), (''ENGSUB'', ''English Subtitles''), (''SUBBED'', ''Subbed'')]"

text \<open>
  \<open>COMMON_TRASH_TERMS\<close>: each term as \<open>\bterm\b\<close>, and the pattern
  \<open>\[[a-zA-Z0-9\s\-]+\]\<close> for bracketed text, all with the flags \<open>ig\<close>.
\<close>

definition COMMON_TRASH_TERMS :: "pattern list" where
  "COMMON_TRASH_TERMS =
     map (\<lambda>term. (True, seqs [WordB, Chars term, WordB]))
        [''REQ'', ''REQUEST'', ''RARBG'', ''PROPER'', ''REPACK'', ''REAL'', ''FINAL'',
         ''UNRATED'', ''DIRECTORS CUT'', ''EXTENDED'', ''LIMITED'', ''CRITERION'',
         ''COLLECTION'', ''INTERNAL'', ''COMPLETE'', ''SUBBED'', ''SUBS'', ''SUBTITLE'',
         ''SUBTITLES'']
     @ [(True, seqs [Chars ''['', Plus (Alt Space (Cls (alnum_chars @ ''-''))), Chars '']''])]"

definition QUALITY_RANK_MAP :: "(string \<times> VideoQualityRank) list" where
  "QUALITY_RANK_MAP =
    [(''2160P BLURAY'', UHD_BLURAY), (''4K BLURAY'', UHD_BLURAY),
     (''2160P REMUX'', UHD_BLURAY), (''4K REMUX'', UHD_BLURAY),
     (''2160P WEB-DL'', WEBDL_2160P), (''2160P WEBDL'', WEBDL_2160P),
     (''4K WEB-DL'', WEBDL_2160P), (''4K WEBDL'', WEBDL_2160P),
     (''2160P WEB'', WEBDL_2160P), (''4K WEB'', WEBDL_2160P),
     (''2160P WEBRIP'', WEBDL_2160P), (''4K WEBRIP'', WEBDL_2160P),
     (''1080P BLURAY'', BLURAY_1080P),
     (''1080P REMUX'', BLURAY_1080P),
     (''1080P WEB-DL'', WEBDL_1080P), (''1080P WEBDL'', WEBDL_1080P),
     (''1080P WEB'', WEBDL_1080P), (''1080P WEBRIP'', WEBDL_1080P),
     (''1080P BDRIP'', BLURAY_1080P), (''1080P BRRIP'', BLURAY_1080P),
     (''1080P HDTV'', HDTV_1080P),
     (''720P BLURAY'', BLURAY_720P),
     (''720P REMUX'', BLURAY_720P),
     (''720P WEB-DL'', WEBDL_720P), (''720P WEBDL'', WEBDL_720P),
     (''720P WEB'', WEBDL_720P), (''720P WEBRIP'', WEBDL_720P),
     (''720P BDRIP'', BLURAY_720P), (''720P BRRIP'', BLURAY_720P),
     (''720P HDTV'', HDTV_720P),
     (''DVDRIP'', DVD), (''DVD-R'', DVD),
     (''480P DVD'', DVD), (''576P DVD'', DVD),
     (''480P BDRIP'', DVD), (''576P BDRIP'', DVD),
     (''480P'', SD), (''576P'', SD), (''SD'', SD),
     (''DVDSCR'', LOW_QUALITY), (''SCREENER'', LOW_QUALITY), (''SCR'', LOW_QUALITY),
     (''TS'', LOW_QUALITY), (''TELESYNC'', LOW_QUALITY),
     (''TC'', LOW_QUALITY), (''TELECINE'', LOW_QUALITY),
     (''CAM'', LOW_QUALITY), (''CAMRIP'', LOW_QUALITY),
     (''BLURAY'', BLURAY_1080P),
     (''WEB-DL'', WEBDL_1080P), (''WEBDL'', WEBDL_1080P),
     (''WEB'', WEBDL_1080P), (''WEBRIP'', WEBDL_1080P),
     (''BDRIP'', BLURAY_720P), (''BRRIP'', BLURAY_720P),
     (''HDTV'', HDTV_720P),
     (''UNKNOWN'', UNKNOWN)]"

definition LOW_QUALITY_TERMS :: "string list" where
  "LOW_QUALITY_TERMS =
    [''CAM'', ''CAMRIP'', ''TS'', ''TELESYNC'', ''TC'', ''TELECINE'', ''SCR'', ''SCREENER'',
     ''DVDSCR'', ''PDVD'']"

definition LOW_QUALITY_RESOLUTIONS :: "string list" where
  "LOW_QUALITY_RESOLUTIONS = [''480P'', ''360P'', ''SD'']"

section \<open>stremioFormatter.ts: getQualityRank\<close>

text \<open>
  \<open>if (QUALITY_RANK_MAP[key]) return QUALITY_RANK_MAP[key]\<close>: the entry is returned when
  the key is in the table and its number is truthy, that is, not \<open>0\<close>.
\<close>

definition rank_lookup :: "string \<Rightarrow> VideoQualityRank option" where
  "rank_lookup key =
     (case map_of QUALITY_RANK_MAP key of
        None \<Rightarrow> None
      | Some r \<Rightarrow> if rankValue r = 0 then None else Some r)"

text \<open>\<open>source.replace(/-/g, '')\<close> and \<open>source.split(/[\s-]/)[0]\<close>.\<close>

definition remove_hyphens :: "string \<Rightarrow> string" where
  "remove_hyphens s = filter (\<lambda>c. c \<noteq> CHR ''-'') s"

definition first_part :: "string \<Rightarrow> string" where
  "first_part s = takeWhile (\<lambda>c. \<not> is_space c \<and> c \<noteq> CHR ''-'') s"

definition getQualityRank :: "ParsedMetadata option \<Rightarrow> VideoQualityRank" where
  "getQualityRank pm =
     (case pm of
        None \<Rightarrow> UNKNOWN
      | Some parsedMeta \<Rightarrow>
          let res = map_option toUpperCase (resolution parsedMeta);
              src = map_option toUpperCase (qualitySource parsedMeta)
          in
          if truthy_str src \<and> list_ex (\<lambda>lqs. str_includes (str_of src) (toUpperCase lqs)) LOW_QUALITY_TERMS
          then LOW_QUALITY
          else if truthy_str res \<and> List.member LOW_QUALITY_RESOLUTIONS (str_of res)
          then (if truthy_str src \<and>
                   (str_includes (str_of src) ''DVD'' \<or> str_includes (str_of src) ''BDRIP'' \<or>
                    str_includes (str_of src) ''BRRIP'')
                then DVD else SD)
          else
            (case (if truthy_str res \<and> truthy_str src
                   then (case rank_lookup (str_of res @ '' '' @ remove_hyphens (str_of src)) of
                           Some r \<Rightarrow> Some r
                         | None \<Rightarrow> rank_lookup (str_of res @ '' '' @ first_part (str_of src)))
                   else None) of
               Some r \<Rightarrow> r
             | None \<Rightarrow>
                 (case (if truthy_str src then rank_lookup (remove_hyphens (str_of src)) else None) of
                    Some r \<Rightarrow> r
                  | None \<Rightarrow>
                      (case (if truthy_str res then rank_lookup (str_of res) else None) of
                         Some r \<Rightarrow> r
                       | None \<Rightarrow> UNKNOWN))))"

section \<open>metadataParser.ts\<close>

definition sizeRegexLocal :: pattern where
  "sizeRegexLocal = (True,
     seqs [Grp 1 (Seq (Plus Digit) (Opt (Seq (Chars ''.'') (Plus Digit)))),
           Star Space,
           Grp 2 size_units])"

definition parseSize :: "string \<Rightarrow> rat option" where
  "parseSize sizeStr =
     (case exec sizeRegexLocal sizeStr of
        None \<Rightarrow> None
      | Some localMatch \<Rightarrow>
          (case parseFloat (str_of (capture localMatch 1)) of
             None \<Rightarrow> None
           | Some v \<Rightarrow>
               let unit = toUpperCase (str_of (capture localMatch 2)) in
               if prefix ''KB'' unit \<or> prefix ''KIB'' unit then Some (multiply v 1024)
               else if prefix ''MB'' unit \<or> prefix ''MIB'' unit
                    then Some (multiply (multiply v 1024) 1024)
               else if prefix ''GB'' unit \<or> prefix ''GIB'' unit
                    then Some (multiply (multiply (multiply v 1024) 1024) 1024)
               else if prefix ''TB'' unit \<or> prefix ''TIB'' unit
                    then Some (multiply (multiply (multiply (multiply v 1024) 1024) 1024) 1024)
               else None))"

text \<open>
  \<open>cleanTitle\<close>. A term of \<open>toRemoveExact\<close> is escaped before it is put into the pattern
  \<open>(?:^|[.\s_\-\[])term(?:[.\s_\-\]]|$)\<close>, so it stands for its own text. The year and
  the release group of the fallback are put into \<open>[.\s_-]?x[.\s_-]?\<close> unescaped, and
  \<open>strip_pattern\<close> reads them as their own text. That is the pattern of the source for a
  numeral and for a release group of letters, digits and hyphens, which is what
  \<open>RELEASE_GROUP\<close> takes and so what the parser hands to \<open>cleanTitle\<close>. A release group
  with a character that has a meaning in a pattern, which only metadata built by hand can
  hold, makes another pattern in the source; what is stated of \<open>cleanTitle\<close> is stated for
  a release group of letters, digits and hyphens.
\<close>

definition term_pattern :: "string \<Rightarrow> pattern" where
  "term_pattern t = (True,
     seqs [Alt Bol (Alt Space (Cls ''._-['')), Chars t, Alt (Alt Space (Cls ''._-]'')) Eol])"

definition strip_pattern :: "string \<Rightarrow> pattern" where
  "strip_pattern t = (True,
     seqs [Opt (Alt Space (Cls ''._-'')), Chars t, Opt (Alt Space (Cls ''._-''))])"

definition four_digits :: pattern where
  "four_digits = (False, seqs [Bol, Rep 4 4 Digit, Eol])"

text \<open>\<open>.replace(/[._-]+/g, ' ').replace(/\s+/g, ' ').trim()\<close>\<close>

definition tidy :: "string \<Rightarrow> string" where
  "tidy s = trim (replace_all (False, Plus Space) '' ''
                   (replace_all (False, Plus (Cls ''._-'')) '' '' s))"

definition truthy_num :: "nat option \<Rightarrow> bool" where
  "truthy_num v = (case v of None \<Rightarrow> False | Some n \<Rightarrow> n \<noteq> 0)"

definition toRemoveExact :: "ParsedMetadata \<Rightarrow> string list" where
  "toRemoveExact parsedMeta =
     filter (\<lambda>t. t \<noteq> [])
       (List.map_filter id
          [map_option dec (year parsedMeta),
           resolution parsedMeta,
           qualitySource parsedMeta,
           videoCodec parsedMeta,
           (if isHDR parsedMeta = Some True
            then (case exec HDR (originalTitle parsedMeta) of
                    None \<Rightarrow> Some ''HDR''
                  | Some m \<Rightarrow> if m_text m \<noteq> [] then Some (m_text m) else Some ''HDR'')
            else None),
           (if is3D parsedMeta = Some True then Some ''3D'' else None),
           episodeInfo parsedMeta,
           releaseGroup parsedMeta]
        @ (case languages parsedMeta of
             None \<Rightarrow> []
           | Some ls \<Rightarrow>
               filter (\<lambda>lang. length lang \<le> 3 \<or> map_of LANGUAGE_MAP (toUpperCase lang) \<noteq> None) ls))"

text \<open>The part of \<open>cleanTitle\<close> before the fallback: the value of \<open>cleaned\<close>.\<close>

definition primaryClean :: "string \<Rightarrow> ParsedMetadata \<Rightarrow> string" where
  "primaryClean ttl parsedMeta =
     tidy (foldl (\<lambda>cleaned trashRegex. replace_all trashRegex '' '' cleaned)
             (foldl (\<lambda>cleaned t. replace_all (term_pattern t) '' '' cleaned)
                ttl (toRemoveExact parsedMeta))
             COMMON_TRASH_TERMS)"

definition cleanTitle :: "string \<Rightarrow> ParsedMetadata \<Rightarrow> string option \<Rightarrow> string" where
  "cleanTitle ttl parsedMeta originalSearchTitle =
     (let cleaned = primaryClean ttl parsedMeta in
      if (length cleaned < 5 \<and> length ttl > 10) \<or> test four_digits cleaned
      then
        (let fb0 = (if truthy_str originalSearchTitle then str_of originalSearchTitle else ttl);
             fb1 = (case year parsedMeta of
                      None \<Rightarrow> fb0
                    | Some y \<Rightarrow> if y \<noteq> 0 then replace_all (strip_pattern (dec y)) '' '' fb0
                                else fb0);
             fb2 = (if truthy_str (releaseGroup parsedMeta)
                    then replace_all (strip_pattern (str_of (releaseGroup parsedMeta))) '' '' fb1
                    else fb1);
             fallbackCleaned = tidy fb2
         in if fallbackCleaned = [] \<and> truthy_str (releaseGroup parsedMeta)
            then trim (replace_all (strip_pattern (str_of (releaseGroup parsedMeta))) [] ttl)
            else if fallbackCleaned \<noteq> [] then fallbackCleaned
            else trim ttl)
      else cleaned)"

text \<open>
  \<open>parseTorrentTitle\<close>. The helpers \<open>extractFirstMatch\<close> and \<open>extractAllMatches\<close> take the
  name of the field they assign; the value they assign is a number or a string, or an
  array of strings for the audio codecs.
\<close>

datatype field =
    F_year | F_episodeInfo | F_resolution | F_qualitySource | F_videoCodec | F_audioCodec
  | F_releaseGroup

datatype jsval = JNumber nat | JNaN | JString string | JArray "string list"

text \<open>\<open>!metadata[field]\<close> is the negation of \<open>field_truthy\<close>.\<close>

fun field_truthy :: "field \<Rightarrow> ParsedMetadata \<Rightarrow> bool" where
  "field_truthy F_year m = truthy_num (year m)"
| "field_truthy F_episodeInfo m = truthy_str (episodeInfo m)"
| "field_truthy F_resolution m = truthy_str (resolution m)"
| "field_truthy F_qualitySource m = truthy_str (qualitySource m)"
| "field_truthy F_videoCodec m = truthy_str (videoCodec m)"
| "field_truthy F_audioCodec m =
     (case audioCodec m of None \<Rightarrow> False | Some (AudioStr a) \<Rightarrow> a \<noteq> [] | Some (AudioArr xs) \<Rightarrow> True)"
| "field_truthy F_releaseGroup m = truthy_str (releaseGroup m)"

text \<open>
  \<open>metadata[field] = value\<close>. A field holds values of its own type; \<open>NaN\<close>, which is
  falsy, is kept as an unset year. The source never assigns a value of another type, and
  such an assignment is left out here.
\<close>

fun assign_field :: "field \<Rightarrow> jsval \<Rightarrow> ParsedMetadata \<Rightarrow> ParsedMetadata" where
  "assign_field F_year (JNumber n) m = m\<lparr>year := Some n\<rparr>"
| "assign_field F_year JNaN m = m\<lparr>year := None\<rparr>"
| "assign_field F_episodeInfo (JString v) m = m\<lparr>episodeInfo := Some v\<rparr>"
| "assign_field F_resolution (JString v) m = m\<lparr>resolution := Some v\<rparr>"
| "assign_field F_qualitySource (JString v) m = m\<lparr>qualitySource := Some v\<rparr>"
| "assign_field F_videoCodec (JString v) m = m\<lparr>videoCodec := Some v\<rparr>"
| "assign_field F_audioCodec (JString v) m = m\<lparr>audioCodec := Some (AudioStr v)\<rparr>"
| "assign_field F_audioCodec (JArray vs) m = m\<lparr>audioCodec := Some (AudioArr vs)\<rparr>"
| "assign_field F_releaseGroup (JString v) m = m\<lparr>releaseGroup := Some v\<rparr>"
| "assign_field f v m = m"

text \<open>
  \<open>extractFirstMatch(regex, field, transform)\<close> on \<open>workTitle\<close>; without a transform the
  value is upper-cased.
\<close>

definition extractFirstMatch ::
  "pattern \<Rightarrow> field \<Rightarrow> (string \<Rightarrow> jsval) option \<Rightarrow> string \<Rightarrow> ParsedMetadata \<Rightarrow> ParsedMetadata" where
  "extractFirstMatch regex fld transform workTitle metadata =
     (case exec regex workTitle of
        None \<Rightarrow> metadata
      | Some m \<Rightarrow>
          let valueToSet = group1_or_text m;
              processedValue = (case transform of
                                  Some tr \<Rightarrow> tr valueToSet
                                | None \<Rightarrow> JString (toUpperCase valueToSet))
          in if \<not> field_truthy fld metadata then assign_field fld processedValue metadata
             else metadata)"

text \<open>\<open>metadata[field]?.length === 0\<close>: an empty string or an empty array.\<close>

fun field_length0 :: "field \<Rightarrow> ParsedMetadata \<Rightarrow> bool" where
  "field_length0 F_year m = False"
| "field_length0 F_episodeInfo m = (episodeInfo m = Some [])"
| "field_length0 F_resolution m = (resolution m = Some [])"
| "field_length0 F_qualitySource m = (qualitySource m = Some [])"
| "field_length0 F_videoCodec m = (videoCodec m = Some [])"
| "field_length0 F_audioCodec m =
     (audioCodec m = Some (AudioStr []) \<or> audioCodec m = Some (AudioArr []))"
| "field_length0 F_releaseGroup m = (releaseGroup m = Some [])"

text \<open>\<open>Array.from(new Set(values))\<close>: the first occurrence of each value, in order.\<close>

fun uniq :: "'a list \<Rightarrow> 'a list" where
  "uniq [] = []"
| "uniq (x # xs) = x # uniq (filter (\<lambda>y. y \<noteq> x) xs)"

definition extractAllMatches ::
  "pattern \<Rightarrow> field \<Rightarrow> bool \<Rightarrow> (string \<Rightarrow> string) option \<Rightarrow> string \<Rightarrow> ParsedMetadata \<Rightarrow> ParsedMetadata" where
  "extractAllMatches regex fld unique transform workTitle metadata =
     (let vals = map (\<lambda>v. case transform of Some tr \<Rightarrow> tr v | None \<Rightarrow> toUpperCase v)
                     (match_all regex workTitle)
      in if vals \<noteq> []
         then (let finalValues = (if unique then uniq vals else vals) in
               if \<not> field_truthy fld metadata \<or> field_length0 fld metadata
               then assign_field fld
                      (if length finalValues = 1 \<and> unique then JString (hd finalValues)
                       else JArray finalValues)
                      metadata
               else metadata)
         else metadata)"

text \<open>\<open>xs.join(' ')\<close> and \<open>s.split(/[+,]/)\<close>.\<close>

fun join_space :: "string list \<Rightarrow> string" where
  "join_space [] = []"
| "join_space [x] = x"
| "join_space (x # y # ys) = x @ '' '' @ join_space (y # ys)"

fun split_plus_comma :: "string \<Rightarrow> string list" where
  "split_plus_comma [] = [[]]"
| "split_plus_comma (c # cs) =
     (if c = CHR ''+'' \<or> c = CHR '','' then [] # split_plus_comma cs
      else (case split_plus_comma cs of
              [] \<Rightarrow> [[c]]
            | w # ws \<Rightarrow> (c # w) # ws))"

text \<open>The body of the loop over the matches of \<open>LANGUAGES\<close>: what one match adds.\<close>

definition languagesOf :: "string \<Rightarrow> string list" where
  "languagesOf langKeyPart =
     (let langKey = trim (replace_first (False, seqs [Chars ''SUB'', Eol]) []
                      (replace_first (False, seqs [Alt Space (Cls ''.''), Chars ''AUDIO'']) []
                         (toUpperCase langKeyPart)))
      in case map_of LANGUAGE_MAP langKey of
           Some l \<Rightarrow> [l]
         | None \<Rightarrow>
             if str_includes langKey ''+'' \<or> str_includes langKey '',''
             then concat (map (\<lambda>sl. case map_of LANGUAGE_MAP sl of
                                      Some l \<Rightarrow> [l]
                                    | None \<Rightarrow> if 2 \<le> length sl \<and> length sl \<le> 7 then [sl] else [])
                              (map trim (split_plus_comma langKey)))
             else if 2 \<le> length langKey \<and> length langKey \<le> 7 then [langKey]
             else [])"

text \<open>The object \<open>{ originalTitle: title }\<close> that the parser starts from.\<close>

definition newMetadata :: "string \<Rightarrow> ParsedMetadata" where
  "newMetadata ttl =
     \<lparr>originalTitle = ttl, cleanedTitle = None, year = None, resolution = None,
      qualitySource = None, videoCodec = None, audioCodec = None, languages = None,
      isHDR = None, is3D = None, releaseGroup = None, episodeInfo = None, rawSize = None,
      calculatedSize = None, seeders = None\<rparr>"

text \<open>The numbered steps of \<open>parseTorrentTitle\<close>, each on the metadata built so far.\<close>

definition step1_year :: "nat option \<Rightarrow> string \<Rightarrow> ParsedMetadata \<Rightarrow> ParsedMetadata" where
  "step1_year torrentYearFromBitmagnet workTitle metadata =
     (if truthy_num torrentYearFromBitmagnet
      then metadata\<lparr>year := torrentYearFromBitmagnet\<rparr>
      else extractFirstMatch YEAR F_year
             (Some (\<lambda>v. case parseInt v of Some n \<Rightarrow> JNumber n | None \<Rightarrow> JNaN))
             workTitle metadata)"

definition step2_episodeInfo :: "string \<Rightarrow> ParsedMetadata \<Rightarrow> ParsedMetadata" where
  "step2_episodeInfo workTitle metadata =
     extractFirstMatch SEASON_EPISODE F_episodeInfo (Some (\<lambda>v. JString (toUpperCase v)))
       workTitle metadata"

definition step3_resolution :: "string \<Rightarrow> ParsedMetadata \<Rightarrow> ParsedMetadata" where
  "step3_resolution workTitle metadata =
     extractFirstMatch RESOLUTION F_resolution None workTitle metadata"

definition step4_qualitySource :: "string \<Rightarrow> ParsedMetadata \<Rightarrow> ParsedMetadata" where
  "step4_qualitySource workTitle metadata =
     extractFirstMatch QUALITY_SOURCE F_qualitySource None workTitle metadata"

definition step5_videoCodec :: "string \<Rightarrow> ParsedMetadata \<Rightarrow> ParsedMetadata" where
  "step5_videoCodec workTitle metadata =
     extractFirstMatch VIDEO_CODEC F_videoCodec None workTitle metadata"

definition step6_audioCodec :: "string \<Rightarrow> ParsedMetadata \<Rightarrow> ParsedMetadata" where
  "step6_audioCodec workTitle metadata =
     (let m = extractAllMatches AUDIO_CODEC F_audioCodec True None workTitle metadata
      in case audioCodec m of
           Some (AudioArr xs) \<Rightarrow> m\<lparr>audioCodec := Some (AudioStr (join_space xs))\<rparr>
         | _ \<Rightarrow> m)"

definition step7_hdr_3d :: "string \<Rightarrow> ParsedMetadata \<Rightarrow> ParsedMetadata" where
  "step7_hdr_3d workTitle metadata =
     (let m = (if test HDR workTitle then metadata\<lparr>isHDR := Some True\<rparr> else metadata)
      in if test THREE_D workTitle then m\<lparr>is3D := Some True\<rparr> else m)"

definition step8_languages :: "string \<Rightarrow> ParsedMetadata \<Rightarrow> ParsedMetadata" where
  "step8_languages workTitle metadata =
     (let foundLanguages = concat (map languagesOf (match_all LANGUAGES workTitle))
      in if foundLanguages \<noteq> []
         then metadata\<lparr>languages :=
                Some (uniq (filter (\<lambda>l. length l > 1 \<and> \<not> str_includes l ''AUDIO'')
                              foundLanguages))\<rparr>
         else metadata)"

definition step9_releaseGroup :: "string \<Rightarrow> ParsedMetadata \<Rightarrow> ParsedMetadata" where
  "step9_releaseGroup workTitle metadata =
     extractFirstMatch RELEASE_GROUP F_releaseGroup
       (Some (\<lambda>v. JString (if prefix ''-'' v then drop 1 v else v))) workTitle metadata"

definition step10_size :: "string \<Rightarrow> ParsedMetadata \<Rightarrow> ParsedMetadata" where
  "step10_size ttl metadata =
     (case exec SIZE ttl of
        None \<Rightarrow> metadata
      | Some sizeMatchInTitle \<Rightarrow>
          if m_text sizeMatchInTitle \<noteq> []
          then (let m = metadata\<lparr>rawSize := Some (m_text sizeMatchInTitle)\<rparr> in
                if calculatedSize m = None \<or> calculatedSize m = Some 0
                then m\<lparr>calculatedSize := parseSize (m_text sizeMatchInTitle)\<rparr>
                else m)
          else metadata)"

definition step11_cleanedTitle :: "string \<Rightarrow> string option \<Rightarrow> ParsedMetadata \<Rightarrow> ParsedMetadata" where
  "step11_cleanedTitle ttl originalSearchTitle metadata =
     metadata\<lparr>cleanedTitle := Some (cleanTitle ttl metadata originalSearchTitle)\<rparr>"

definition step12_year :: "string option \<Rightarrow> ParsedMetadata \<Rightarrow> ParsedMetadata" where
  "step12_year originalSearchTitle metadata =
     (if \<not> truthy_num (year metadata) \<and> truthy_str originalSearchTitle
      then (case exec YEAR (str_of originalSearchTitle) of
              None \<Rightarrow> metadata
            | Some yearMatchInOriginalSearch \<Rightarrow>
                if m_text yearMatchInOriginalSearch \<noteq> []
                then metadata\<lparr>year := parseInt (m_text yearMatchInOriginalSearch)\<rparr>
                else metadata)
      else metadata)"

text \<open>\<open>workTitle\<close> is the title throughout: the line that would shorten it is commented out.\<close>

definition parseTorrentTitle :: "string \<Rightarrow> string option \<Rightarrow> nat option \<Rightarrow> ParsedMetadata" where
  "parseTorrentTitle ttl originalSearchTitle torrentYearFromBitmagnet =
     step12_year originalSearchTitle
       (step11_cleanedTitle ttl originalSearchTitle
          (step10_size ttl
             (step9_releaseGroup ttl
                (step8_languages ttl
                   (step7_hdr_3d ttl
                      (step6_audioCodec ttl
                         (step5_videoCodec ttl
                            (step4_qualitySource ttl
                               (step3_resolution ttl
                                  (step2_episodeInfo ttl
                                     (step1_year torrentYearFromBitmagnet ttl
                                        (newMetadata ttl))))))))))))"

section \<open>utils/standardization.ts: standardizeYear\<close>

text \<open>
  \<open>standardizeYear\<close> of a string; \<open>currentYear\<close> is \<open>new Date().getFullYear()\<close>.
  The pattern is \<open>(?<!\d)(?:1[89]\d{2}|20\d{2})(?!\d)\<close>.
\<close>

definition year_pattern :: pattern where
  "year_pattern = (False,
     seqs [NotAfter digit_chars,
           Alt (seqs [Chars ''1'', Cls ''89'', Rep 2 2 Digit]) (seqs [Chars ''20'', Rep 2 2 Digit]),
           NegLook Digit])"

definition standardizeYear :: "nat \<Rightarrow> string \<Rightarrow> nat option" where
  "standardizeYear currentYear yearInput =
     (let yearString = trim yearInput in
      case exec year_pattern yearString of
        None \<Rightarrow> None
      | Some m \<Rightarrow>
          if m_text m \<noteq> []
          then (case parseInt (m_text m) of
                  None \<Rightarrow> None
                | Some y \<Rightarrow> if 1880 \<le> y \<and> y \<le> currentYear + 5 then Some y else None)
          else None)"

section \<open>addonService.ts: processStreamRequest\<close>

text \<open>
  The records that the pipeline reads and builds. A field whose name another record
  already has carries the prefix of its record. Seeders are integers; sizes are byte
  counts, which \<open>parseSize\<close> can make fractional.
\<close>

record BitmagnetTorrent =
  torrent_infoHash :: string
  torrent_title :: string
  torrent_seeders :: "int option"
  torrent_size :: "rat option"
  torrent_source :: "string option"
  torrent_videoResolution :: "string option"
  torrent_videoCodec :: "string option"
  torrent_releaseDate :: "string option"

record StremioStream =
  stream_infoHash :: "string option"
  stream_parsedMeta :: "ParsedMetadata option"
  stream_seeders :: "int option"
  stream_size :: "rat option"

datatype StremioItemType = Movie | Series | Channel | Tv

datatype SortPreference = Seeders | PreferredLanguage | Quality | Size

record AddonConfig =
  preferredLanguage :: string
  qualitySortOrder :: "string list"
  filterLowQuality :: bool
  minSeeders :: int
  sortPreference :: "SortPreference list"

text \<open>
  \<open>Array.from(new Map(rawResults.map(item => [item.infoHash, item])).values())\<close>.
  The constructor of \<open>Map\<close> sets the entries one after the other: a key that is new is
  appended, a key that is there keeps its place and takes the new value.
\<close>

fun map_set :: "('k \<times> 'v) list \<Rightarrow> 'k \<Rightarrow> 'v \<Rightarrow> ('k \<times> 'v) list" where
  "map_set [] k v = [(k, v)]"
| "map_set ((k', v') # es) k v = (if k' = k then (k, v) # es else (k', v') # map_set es k v)"

definition new_Map :: "('k \<times> 'v) list \<Rightarrow> ('k \<times> 'v) list" where
  "new_Map entries = foldl (\<lambda>m (k, v). map_set m k v) [] entries"

definition uniqueResults :: "BitmagnetTorrent list \<Rightarrow> BitmagnetTorrent list" where
  "uniqueResults rawResults =
     map snd (new_Map (map (\<lambda>item. (torrent_infoHash item, item)) rawResults))"

text \<open>
  The patterns of the episode check, \<open>[Ss](pp|s)[Ee](qq|e)\<close> and
  \<open>[Ss](pp|s)(?!\d|([Ee]))\<close>, both with the flag \<open>i\<close>, where \<open>pp\<close> is
  \<open>String(season).padStart(2, '0')\<close>.
\<close>

definition padStart2 :: "string \<Rightarrow> string" where
  "padStart2 s = replicate (2 - length s) CHR ''0'' @ s"

definition sePattern :: "nat \<Rightarrow> nat \<Rightarrow> pattern" where
  "sePattern season episode = (True,
     seqs [Cls ''Ss'', Grp 1 (Alt (Chars (padStart2 (dec season))) (Chars (dec season))),
           Cls ''Ee'', Grp 2 (Alt (Chars (padStart2 (dec episode))) (Chars (dec episode)))])"

definition seasonPackPattern :: "nat \<Rightarrow> pattern" where
  "seasonPackPattern season = (True,
     seqs [Cls ''Ss'', Grp 1 (Alt (Chars (padStart2 (dec season))) (Chars (dec season))),
           NegLook (Alt Digit (Grp 2 (Cls ''Ee'')))])"

text \<open>\<open>a || b\<close> on optional numbers: \<open>a\<close> when it is truthy (set and not \<open>0\<close>), else \<open>b\<close>.\<close>

definition or_else :: "'a::zero option \<Rightarrow> 'a option \<Rightarrow> 'a option" where
  "or_else a b = (case a of None \<Rightarrow> b | Some x \<Rightarrow> if x = 0 then b else a)"

text \<open>\<open>v || 0\<close> on an optional number.\<close>

definition num_or_0 :: "'a::zero option \<Rightarrow> 'a" where
  "num_or_0 v = (case v of None \<Rightarrow> 0 | Some x \<Rightarrow> x)"

definition or_str :: "string option \<Rightarrow> string option \<Rightarrow> string option" where
  "or_str a b = (if truthy_str a then a else b)"

text \<open>
  The episode check of the callback: \<open>type === 'series' && season && episode\<close>, the
  title has episode information, and neither pattern is found in it.
\<close>

definition rejectedByEpisode ::
  "StremioItemType \<Rightarrow> nat option \<Rightarrow> nat option \<Rightarrow> ParsedMetadata \<Rightarrow> bool" where
  "rejectedByEpisode itemType season episode parsedMeta =
     (case (season, episode) of
        (Some s, Some e) \<Rightarrow>
          itemType = Series \<and> s \<noteq> 0 \<and> e \<noteq> 0
          \<and> truthy_str (episodeInfo parsedMeta)
          \<and> \<not> test (sePattern s e) (str_of (episodeInfo parsedMeta))
          \<and> \<not> test (seasonPackPattern s) (str_of (episodeInfo parsedMeta))
      | _ \<Rightarrow> False)"

text \<open>
  The callback of \<open>uniqueResults.map\<close>, from the parsed metadata on: \<open>None\<close> is the
  \<open>null\<close> that the following \<open>filter\<close> drops.
\<close>

definition streamOf ::
  "StremioItemType \<Rightarrow> nat option \<Rightarrow> nat option \<Rightarrow> BitmagnetTorrent \<Rightarrow> ParsedMetadata
     \<Rightarrow> StremioStream option" where
  "streamOf itemType season episode torrent parsedMeta =
     (if rejectedByEpisode itemType season episode parsedMeta
      then None
      else
        (let pm = parsedMeta\<lparr>
                    resolution := or_str (torrent_videoResolution torrent) (resolution parsedMeta),
                    videoCodec := or_str (torrent_videoCodec torrent) (videoCodec parsedMeta),
                    qualitySource := or_str (torrent_source torrent) (qualitySource parsedMeta)\<rparr>
         in Some \<lparr>stream_infoHash = Some (torrent_infoHash torrent),
                  stream_parsedMeta =
                    Some (pm\<lparr>seeders := or_else (or_else (torrent_seeders torrent) (seeders pm)) (Some 0),
                              calculatedSize := or_else (torrent_size torrent) (calculatedSize pm)\<rparr>),
                  stream_seeders = or_else (or_else (torrent_seeders torrent) (seeders pm)) (Some 0),
                  stream_size = or_else (torrent_size torrent) (calculatedSize pm)\<rparr>))"

definition toStream ::
  "StremioItemType \<Rightarrow> nat option \<Rightarrow> nat option \<Rightarrow> string \<Rightarrow> nat option \<Rightarrow> nat
     \<Rightarrow> BitmagnetTorrent \<Rightarrow> StremioStream option" where
  "toStream itemType season episode standardizedTitle standardizedYear currentYear torrent =
     (let torrentYearFromBitmagnetRelease =
            (if truthy_str (torrent_releaseDate torrent)
             then standardizeYear currentYear (str_of (torrent_releaseDate torrent))
             else None);
          contextYearForParsing = or_else torrentYearFromBitmagnetRelease standardizedYear;
          parsedMeta = parseTorrentTitle (torrent_title torrent) (Some standardizedTitle)
                         contextYearForParsing
      in streamOf itemType season episode torrent parsedMeta)"

text \<open>The two filters that follow the map.\<close>

definition minSeedersFilter :: "AddonConfig \<Rightarrow> StremioStream list \<Rightarrow> StremioStream list" where
  "minSeedersFilter config parsedStreams =
     (if minSeeders config > 0
      then filter (\<lambda>stream. num_or_0 (stream_seeders stream) \<ge> minSeeders config) parsedStreams
      else parsedStreams)"

definition keepStream :: "StremioStream \<Rightarrow> bool" where
  "keepStream stream =
     (let rank = getQualityRank (stream_parsedMeta stream);
          sourceUpper = (case stream_parsedMeta stream of
                           None \<Rightarrow> None
                         | Some pm \<Rightarrow> map_option toUpperCase (qualitySource pm));
          resUpper = (case stream_parsedMeta stream of
                        None \<Rightarrow> None
                      | Some pm \<Rightarrow> map_option toUpperCase (resolution pm))
      in if rank = LOW_QUALITY \<or> rank = UNKNOWN then False
         else if truthy_str sourceUpper
                 \<and> list_ex (\<lambda>lqTerm. str_includes (str_of sourceUpper) lqTerm) LOW_QUALITY_TERMS
         then False
         else if truthy_str resUpper \<and> List.member LOW_QUALITY_RESOLUTIONS (str_of resUpper)
                 \<and> rankValue rank < rankValue DVD
         then False
         else True)"

definition lowQualityFilter :: "AddonConfig \<Rightarrow> StremioStream list \<Rightarrow> StremioStream list" where
  "lowQualityFilter config parsedStreams =
     (if filterLowQuality config \<and> length parsedStreams > 0
      then (let hasHighQuality =
                  list_ex (\<lambda>stream. rankValue (getQualityRank (stream_parsedMeta stream))
                                      \<ge> rankValue HDTV_720P) parsedStreams
            in if hasHighQuality then filter keepStream parsedStreams else parsedStreams)
      else parsedStreams)"

text \<open>The comparator of the sort: one comparison for each sort preference.\<close>

fun indexOf :: "'a list \<Rightarrow> 'a \<Rightarrow> int" where
  "indexOf [] x = -1"
| "indexOf (y # ys) x =
     (if y = x then 0 else (let i = indexOf ys x in if i = -1 then -1 else i + 1))"

definition langs_of :: "StremioStream \<Rightarrow> string list option" where
  "langs_of stream = (case stream_parsedMeta stream of None \<Rightarrow> None | Some pm \<Rightarrow> languages pm)"

definition res_of :: "ParsedMetadata \<Rightarrow> string" where
  "res_of pm =
     (let r = map_option toUpperCase (resolution pm)
      in if truthy_str r then str_of r else ''UNKNOWN'')"

fun comparison :: "AddonConfig \<Rightarrow> SortPreference \<Rightarrow> StremioStream \<Rightarrow> StremioStream \<Rightarrow> rat" where
  "comparison config Seeders a b =
     of_int (num_or_0 (stream_seeders b) - num_or_0 (stream_seeders a))"
| "comparison config PreferredLanguage a b =
     (let langA = toUpperCase (join_space (case langs_of a of None \<Rightarrow> [] | Some ls \<Rightarrow> ls));
          langB = toUpperCase (join_space (case langs_of b of None \<Rightarrow> [] | Some ls \<Rightarrow> ls));
          prefLangUpper = toUpperCase (preferredLanguage config);
          aHasExactPrefLang = (case langs_of a of None \<Rightarrow> False
                               | Some ls \<Rightarrow> List.member (map toUpperCase ls) prefLangUpper);
          bHasExactPrefLang = (case langs_of b of None \<Rightarrow> False
                               | Some ls \<Rightarrow> List.member (map toUpperCase ls) prefLangUpper)
      in if aHasExactPrefLang \<and> \<not> bHasExactPrefLang then -1
         else if \<not> aHasExactPrefLang \<and> bHasExactPrefLang then 1
         else (let aHasPrefLang = str_includes langA prefLangUpper;
                   bHasPrefLang = str_includes langB prefLangUpper
               in if aHasPrefLang \<and> \<not> bHasPrefLang then -1
                  else if \<not> aHasPrefLang \<and> bHasPrefLang then 1
                  else 0))"
| "comparison config Quality a b =
     (let qualityRankA = getQualityRank (stream_parsedMeta a);
          qualityRankB = getQualityRank (stream_parsedMeta b);
          c = of_int (rankValue qualityRankB - rankValue qualityRankA)
      in case (stream_parsedMeta a, stream_parsedMeta b) of
           (Some pa, Some pb) \<Rightarrow>
             if c = 0
             then (let resAIndex = indexOf (qualitySortOrder config) (res_of pa);
                       resBIndex = indexOf (qualitySortOrder config) (res_of pb)
                   in if resAIndex \<noteq> -1 \<and> resBIndex \<noteq> -1 then of_int (resAIndex - resBIndex)
                      else if resAIndex \<noteq> -1 then -1
                      else if resBIndex \<noteq> -1 then 1
                      else c)
             else c
         | _ \<Rightarrow> c)"
| "comparison config Size a b = num_or_0 (stream_size b) - num_or_0 (stream_size a)"

fun compareStreams ::
  "AddonConfig \<Rightarrow> SortPreference list \<Rightarrow> StremioStream \<Rightarrow> StremioStream \<Rightarrow> rat" where
  "compareStreams config [] a b = 0"
| "compareStreams config (preference # rest) a b =
     (let c = comparison config preference a b
      in if c \<noteq> 0 then c else compareStreams config rest a b)"

text \<open>
  \<open>Array.prototype.sort\<close> is stable: an element goes before the first one that the
  comparator does not put ahead of it.
\<close>

fun insert_by :: "('a \<Rightarrow> 'a \<Rightarrow> rat) \<Rightarrow> 'a \<Rightarrow> 'a list \<Rightarrow> 'a list" where
  "insert_by cmp x [] = [x]"
| "insert_by cmp x (y # ys) = (if cmp x y \<le> 0 then x # y # ys else y # insert_by cmp x ys)"

definition sort_by :: "('a \<Rightarrow> 'a \<Rightarrow> rat) \<Rightarrow> 'a list \<Rightarrow> 'a list" where
  "sort_by cmp xs = foldr (insert_by cmp) xs []"

text \<open>
  \<open>processStreamRequest\<close> from the results of the queries to the sorted streams that are
  handed to the formatter.
\<close>

definition processResults ::
  "StremioItemType \<Rightarrow> nat option \<Rightarrow> nat option \<Rightarrow> string \<Rightarrow> nat option \<Rightarrow> nat \<Rightarrow> AddonConfig
     \<Rightarrow> BitmagnetTorrent list \<Rightarrow> StremioStream list" where
  "processResults itemType season episode standardizedTitle standardizedYear currentYear config
       rawResults =
     sort_by (compareStreams config (sortPreference config))
       (lowQualityFilter config
          (minSeedersFilter config
             (List.map_filter
                (toStream itemType season episode standardizedTitle standardizedYear currentYear)
                (uniqueResults rawResults))))"

section \<open>Notions used in the statements\<close>

text \<open>The rank of a stream, and whether its resolution is 480p, 360p or SD in any case.\<close>

definition rankOf :: "StremioStream \<Rightarrow> VideoQualityRank" where
  "rankOf stream = getQualityRank (stream_parsedMeta stream)"

definition hasLowQualityResolution :: "StremioStream \<Rightarrow> bool" where
  "hasLowQualityResolution stream =
     (case stream_parsedMeta stream of
        None \<Rightarrow> False
      | Some pm \<Rightarrow> (case resolution pm of
                     None \<Rightarrow> False
                   | Some r \<Rightarrow> toUpperCase r \<in> set [''480P'', ''360P'', ''SD'']))"

text \<open>The position of the first occurrence of an element of a list.\<close>

definition position :: "'a list \<Rightarrow> 'a \<Rightarrow> nat" where
  "position xs x = length (takeWhile (\<lambda>y. y \<noteq> x) xs)"

text \<open>Sample data: two records with one infoHash, streams, and a configuration.\<close>

definition torrentA :: BitmagnetTorrent where
  "torrentA = \<lparr>torrent_infoHash = ''abc'', torrent_title = ''Movie.2023.720p.HDTV'',
     torrent_seeders = Some 5, torrent_size = None, torrent_source = None,
     torrent_videoResolution = None, torrent_videoCodec = None, torrent_releaseDate = None\<rparr>"

definition torrentB :: BitmagnetTorrent where
  "torrentB = \<lparr>torrent_infoHash = ''abc'', torrent_title = ''Movie 2023 720p HDTV'',
     torrent_seeders = Some 9, torrent_size = None, torrent_source = None,
     torrent_videoResolution = None, torrent_videoCodec = None, torrent_releaseDate = None\<rparr>"

definition torrentC :: BitmagnetTorrent where
  "torrentC = \<lparr>torrent_infoHash = ''def'', torrent_title = ''Movie.2023.1080p.BluRay'',
     torrent_seeders = None, torrent_size = None, torrent_source = None,
     torrent_videoResolution = None, torrent_videoCodec = None, torrent_releaseDate = None\<rparr>"

definition streamWith :: "string option \<Rightarrow> string option \<Rightarrow> StremioStream" where
  "streamWith res src =
     \<lparr>stream_infoHash = Some ''abc'',
      stream_parsedMeta = Some ((newMetadata ''x'')\<lparr>resolution := res, qualitySource := src\<rparr>),
      stream_seeders = Some 0, stream_size = None\<rparr>"

definition sampleConfig :: AddonConfig where
  "sampleConfig =
     \<lparr>preferredLanguage = ''ENG'',
      qualitySortOrder = [''2160P'', ''1080P'', ''720P'', ''480P'', ''SD'', ''SCR'', ''CAM'', ''UNKNOWN''],
      filterLowQuality = True, minSeeders = 1,
      sortPreference = [Seeders, PreferredLanguage, Quality]\<rparr>"

subsection \<open>What a pattern matches\<close>

text \<open>
  The character that letter-case-insensitive matching compares, and the character before
  a position: the last one of the text before it, if there is one.
\<close>

definition canon :: "bool \<Rightarrow> char \<Rightarrow> char" where
  "canon ic c = (if ic then upper_char c else c)"

definition prev_of :: "char option \<Rightarrow> string \<Rightarrow> char option" where
  "prev_of p pre = (if pre = [] then p else Some (last pre))"

text \<open>
  A search finds \<open>m\<close> after \<open>pre\<close>: the pattern matches there, with \<open>m\<close> its first
  result, and at no earlier position.
\<close>

definition found_at ::
  "pattern \<Rightarrow> char option \<Rightarrow> string \<Rightarrow> string \<Rightarrow> match_result \<Rightarrow> bool" where
  "found_at pat p pre suf m \<longleftrightarrow>
     (\<exists>p' s' caps sts.
        rmatch (fst pat) (snd pat) (prev_of p pre, suf, []) = (p', s', caps) # sts
        \<and> m = \<lparr>m_before = pre, m_text = take (length suf - length s') suf, m_groups = caps,
                m_prev = p', m_rest = s'\<rparr>)
     \<and> (\<forall>pre1 pre2. pre = pre1 @ pre2 \<and> pre2 \<noteq> []
           \<longrightarrow> rmatch (fst pat) (snd pat) (prev_of p pre1, pre2 @ suf, []) = [])"

text \<open>
  Patterns made of literals, classes of characters, sequences, alternatives and groups,
  and the words, in upper case, that such a pattern matches without regard to case.
\<close>

fun simple :: "regex \<Rightarrow> bool" where
  "simple Eps = True"
| "simple (Chars w) = True"
| "simple (Cls cs) = True"
| "simple (Seq a b) = (simple a \<and> simple b)"
| "simple (Alt a b) = (simple a \<and> simple b)"
| "simple (Grp n r) = simple r"
| "simple r = False"

fun words :: "regex \<Rightarrow> string list" where
  "words Eps = [[]]"
| "words (Chars w) = [toUpperCase w]"
| "words (Cls cs) = map (\<lambda>c. [upper_char c]) cs"
| "words (Seq a b) = [u @ v. u \<leftarrow> words a, v \<leftarrow> words b]"
| "words (Alt a b) = words a @ words b"
| "words (Grp n r) = words r"
| "words r = []"

text \<open>Patterns whose results leave the captures as they were, groups apart.\<close>

fun plain :: "regex \<Rightarrow> bool" where
  "plain Eps = True"
| "plain (Chars w) = True"
| "plain (Cls cs) = True"
| "plain (Seq a b) = (plain a \<and> plain b)"
| "plain (Alt a b) = (plain a \<and> plain b)"
| "plain r = False"

text \<open>The first result of a matcher, the one a search takes.\<close>

definition first_is :: "'a list \<Rightarrow> 'a \<Rightarrow> bool" where
  "first_is xs x \<longleftrightarrow> (\<exists>ys. xs = x # ys)"

subsection \<open>The episode of a request\<close>

text \<open>
  \<open>S<season>E<episode>\<close>, each number with and without a leading zero, somewhere in the
  episode signal; and \<open>S<season>\<close> somewhere in it with neither a digit nor an E next.
\<close>

definition episodeMarkers :: "nat \<Rightarrow> nat \<Rightarrow> string list" where
  "episodeMarkers s e =
     [''S'' @ ss @ ''E'' @ es. ss \<leftarrow> [padStart2 (dec s), dec s], es \<leftarrow> [padStart2 (dec e), dec e]]"

definition matchesEpisode :: "nat \<Rightarrow> nat \<Rightarrow> string \<Rightarrow> bool" where
  "matchesEpisode s e info = list_ex (\<lambda>w. sublist w (toUpperCase info)) (episodeMarkers s e)"

definition no_episode_next :: "string \<Rightarrow> bool" where
  "no_episode_next post = (case post of [] \<Rightarrow> True | c # _ \<Rightarrow> \<not> is_digit c \<and> c \<noteq> CHR ''E'')"

definition occurs_before :: "string \<Rightarrow> (string \<Rightarrow> bool) \<Rightarrow> string \<Rightarrow> bool" where
  "occurs_before w ok u =
     list_ex (\<lambda>n. prefix w (drop n u) \<and> ok (drop (n + length w) u)) [0..<Suc (length u)]"

definition matchesSeasonPack :: "nat \<Rightarrow> string \<Rightarrow> bool" where
  "matchesSeasonPack s info =
     list_ex (\<lambda>ss. occurs_before (''S'' @ ss) no_episode_next (toUpperCase info))
       [padStart2 (dec s), dec s]"

text \<open>A record with the title of an episode.\<close>

definition torrentS :: BitmagnetTorrent where
  "torrentS = \<lparr>torrent_infoHash = ''s1'', torrent_title = ''Show.Name.S01E02.720p.WEB-DL.AAC'',
     torrent_seeders = Some 5, torrent_size = None, torrent_source = None,
     torrent_videoResolution = None, torrent_videoCodec = None, torrent_releaseDate = None\<rparr>"

subsection \<open>Resolution tokens\<close>

text \<open>
  The resolutions that \<open>RESOLUTION\<close> names, in upper case, and a token of a title: one of
  them, in any case, with a word boundary on each side.
\<close>

definition RESOLUTION_TOKENS :: "string list" where
  "RESOLUTION_TOKENS = [''4K'', ''2160P'', ''1080P'', ''720P'', ''576P'', ''480P'', ''360P'', ''SD'']"

definition resolutionTokenAt :: "string \<Rightarrow> string \<Rightarrow> string \<Rightarrow> bool" where
  "resolutionTokenAt pre tok post \<longleftrightarrow>
     toUpperCase tok \<in> set RESOLUTION_TOKENS
     \<and> at_word_boundary (prev_of None pre) (tok @ post)
     \<and> at_word_boundary (prev_of None tok) post"

definition resolution_alts :: regex where
  "resolution_alts = alts [Chars ''4K'', Chars ''2160p'', Chars ''1080p'', Chars ''720p'',
                        Chars ''576p'', Chars ''480p'', Chars ''360p'', Chars ''SD'']"

subsection \<open>Sizes\<close>

text \<open>
  The units of \<open>parseSize\<close>, the power of 1024 of a unit, and a decimal numeral with its
  value: the digits before the point and the digits after it.
\<close>

definition SIZE_UNITS :: "string list" where
  "SIZE_UNITS = [''TB'', ''GB'', ''MB'', ''KB'', ''TIB'', ''GIB'', ''MIB'', ''KIB'']"

definition unit_power :: "string \<Rightarrow> nat" where
  "unit_power u =
     (if toUpperCase u \<in> set [''KB'', ''KIB''] then 1
      else if toUpperCase u \<in> set [''MB'', ''MIB''] then 2
      else if toUpperCase u \<in> set [''GB'', ''GIB''] then 3
      else 4)"

definition number_text :: "string \<Rightarrow> string \<Rightarrow> string" where
  "number_text ip ds = ip @ (if ds = [] then [] else CHR ''.'' # ds)"

definition decimal_value :: "string \<Rightarrow> string \<Rightarrow> rat" where
  "decimal_value ip ds = of_nat (digits_val ip) + of_nat (digits_val ds) / 10 ^ length ds"

subsection \<open>Titles\<close>

text \<open>
  A cleaning result is implausible when it is shorter than 5 characters for a title longer
  than 10, or is four digits. The fallback is the search title, or the title when there
  is none, without the year and the release group and tidied; the last resort is the title
  without the release group, trimmed.
\<close>

definition implausible :: "string \<Rightarrow> string \<Rightarrow> bool" where
  "implausible ttl cleaned \<longleftrightarrow>
     (length cleaned < 5 \<and> 10 < length ttl) \<or> (length cleaned = 4 \<and> list_all is_digit cleaned)"

definition withoutReleaseGroup :: "string \<Rightarrow> ParsedMetadata \<Rightarrow> string \<Rightarrow> string" where
  "withoutReleaseGroup rep pm s =
     (if truthy_str (releaseGroup pm)
      then replace_all (strip_pattern (str_of (releaseGroup pm))) rep s
      else s)"

definition withoutYear :: "ParsedMetadata \<Rightarrow> string \<Rightarrow> string" where
  "withoutYear pm s =
     (case year pm of
        None \<Rightarrow> s
      | Some y \<Rightarrow> if y \<noteq> 0 then replace_all (strip_pattern (dec y)) '' '' s else s)"

definition fallbackTitle :: "string \<Rightarrow> ParsedMetadata \<Rightarrow> string option \<Rightarrow> string" where
  "fallbackTitle ttl pm st =
     tidy (withoutReleaseGroup '' '' pm
             (withoutYear pm (if truthy_str st then str_of st else ttl)))"

definition lastResort :: "string \<Rightarrow> ParsedMetadata \<Rightarrow> string" where
  "lastResort ttl pm = trim (withoutReleaseGroup [] pm ttl)"

text \<open>
  A release group of letters, digits and hyphens: text that stands for itself in a
  pattern.
\<close>

definition plain_char :: "char \<Rightarrow> bool" where
  "plain_char c \<longleftrightarrow> c \<in> set alnum_chars \<or> c = CHR ''-''"

definition plainReleaseGroup :: "ParsedMetadata \<Rightarrow> bool" where
  "plainReleaseGroup pm = list_all plain_char (str_of (releaseGroup pm))"

text \<open>
  A title that begins with a character that is neither white space nor one of \<open>. _ -\<close>,
  and not with the release group.
\<close>

definition beginsWithText :: "string \<Rightarrow> ParsedMetadata \<Rightarrow> bool" where
  "beginsWithText ttl pm =
     (case ttl of
        [] \<Rightarrow> False
      | c # cs \<Rightarrow> \<not> is_space c \<and> c \<notin> set ''._-''
                 \<and> \<not> (truthy_str (releaseGroup pm)
                       \<and> prefix (toUpperCase (str_of (releaseGroup pm))) (toUpperCase ttl)))"

text \<open>
  Patterns that consume nothing but characters with a property, and the states between
  which only such characters were consumed.
\<close>

fun made_of :: "(char \<Rightarrow> bool) \<Rightarrow> regex \<Rightarrow> bool" where
  "made_of P Eps = True"
| "made_of P (Chars w) = list_all P w"
| "made_of P (Cls cs) = list_all P cs"
| "made_of P (Seq a b) = (made_of P a \<and> made_of P b)"
| "made_of P (Alt a b) = (made_of P a \<and> made_of P b)"
| "made_of P (Star r) = made_of P r"
| "made_of P r = False"

definition consumed :: "(char \<Rightarrow> bool) \<Rightarrow> mstate \<Rightarrow> mstate \<Rightarrow> bool" where
  "consumed P st st' \<longleftrightarrow> (\<exists>u. fst (snd st) = u @ fst (snd st') \<and> list_all P u)"

text \<open>The metadata that \<open>parseTorrentTitle\<close> hands to \<open>cleanTitle\<close>: that of its first ten steps.\<close>

definition metadataForCleaning :: "string \<Rightarrow> nat option \<Rightarrow> ParsedMetadata" where
  "metadataForCleaning ttl torrentYearFromBitmagnet =
     step10_size ttl
       (step9_releaseGroup ttl
          (step8_languages ttl
             (step7_hdr_3d ttl
                (step6_audioCodec ttl
                   (step5_videoCodec ttl
                      (step4_qualitySource ttl
                         (step3_resolution ttl
                            (step2_episodeInfo ttl
                               (step1_year torrentYearFromBitmagnet ttl
                                  (newMetadata ttl))))))))))"

text \<open>Metadata of the title \<open>2023.1080p.x264\<close>, and metadata with a release group only.\<close>

definition sampleMeta :: ParsedMetadata where
  "sampleMeta = (newMetadata ''2023.1080p.x264'')\<lparr>year := Some 2023, resolution := Some ''1080P'',
                   videoCodec := Some ''X264'', releaseGroup := Some ''x264''\<rparr>"

definition groupMeta :: "string \<Rightarrow> string \<Rightarrow> ParsedMetadata" where
  "groupMeta ttl g = (newMetadata ttl)\<lparr>releaseGroup := Some g\<rparr>"

section \<open>The order of the quality ranks\<close>

lemma VideoQualityRank_UNIV:
  "(UNIV :: VideoQualityRank set) =
     set [UNKNOWN, LOW_QUALITY, SD, HDTV_720P, DVD, HDTV_1080P, WEBDL_720P, BLURAY_720P,
          WEBDL_1080P, WEBDL_2160P, BLURAY_1080P, UHD_BLURAY]"
proof -
  have "x \<in> set [UNKNOWN, LOW_QUALITY, SD, HDTV_720P, DVD, HDTV_1080P, WEBDL_720P, BLURAY_720P,
          WEBDL_1080P, WEBDL_2160P, BLURAY_1080P, UHD_BLURAY]" for x
    by (cases x) simp_all
  then show ?thesis by blast
qed

text \<open>
  C3, as the code has it. The enumeration has exactly twelve members and their numbers
  are strictly increasing along
  UNKNOWN, LOW_QUALITY, SD, HDTV_720P, DVD, HDTV_1080P, WEBDL_720P, BLURAY_720P,
  WEBDL_1080P, WEBDL_2160P, BLURAY_1080P, UHD_BLURAY; so the order is total, UNKNOWN is
  below LOW_QUALITY and UHD_BLURAY is the top. The HDTV, WEB-DL and BluRay tiers are
  interleaved: HDTV_720P is below DVD and HDTV_1080P above it, and BLURAY_720P lies between
  WEBDL_720P and WEBDL_1080P.
\<close>

theorem C3_rank_order:
  "card (UNIV :: VideoQualityRank set) = 12
   \<and> inj rankValue
   \<and> map rankValue [UNKNOWN, LOW_QUALITY, SD, HDTV_720P, DVD, HDTV_1080P, WEBDL_720P,
        BLURAY_720P, WEBDL_1080P, WEBDL_2160P, BLURAY_1080P, UHD_BLURAY]
       = [-1, 0, 1, 2, 3, 4, 5, 6, 7, 8, 9, 10]"
proof -
  have c: "card (UNIV :: VideoQualityRank set) = 12"
    unfolding VideoQualityRank_UNIV by simp
  have i: "inj rankValue"
  proof (rule injI)
    fix x y assume "rankValue x = rankValue y"
    then show "x = y" by (cases x; cases y) simp_all
  qed
  from c i show ?thesis by simp
qed

text \<open>
  C3, as the spec words it, fails: it is not the case that every HDTV tier is below DVD,
  nor that every WEB-DL tier is below every BluRay tier.
\<close>

theorem C3_counterexample:
  "rankValue DVD < rankValue HDTV_1080P \<and> rankValue BLURAY_720P < rankValue WEBDL_1080P
   \<and> rankValue BLURAY_720P < rankValue WEBDL_2160P"
  by simp

section \<open>Low-quality sources\<close>

lemma LOW_QUALITY_TERMS_upper: "map toUpperCase LOW_QUALITY_TERMS = LOW_QUALITY_TERMS"
  by code_simp

lemma list_ex_upper_terms:
  "list_ex (\<lambda>lqs. P (toUpperCase lqs)) LOW_QUALITY_TERMS = list_ex P LOW_QUALITY_TERMS"
proof -
  have "list_ex (\<lambda>lqs. P (toUpperCase lqs)) LOW_QUALITY_TERMS
        = list_ex P (map toUpperCase LOW_QUALITY_TERMS)"
    by (simp add: list_ex_iff)
  then show ?thesis by (simp add: LOW_QUALITY_TERMS_upper)
qed

lemma getQualityRank_low:
  assumes "qualitySource pm = Some src"
    and "t \<in> set LOW_QUALITY_TERMS"
    and "str_includes (toUpperCase src) t"
  shows "getQualityRank (Some pm) = LOW_QUALITY"
proof -
  have "t \<noteq> []" using assms(2) by (auto simp: LOW_QUALITY_TERMS_def)
  with assms(3) have "toUpperCase src \<noteq> []"
    by (auto simp: str_includes_def)
  then have tr: "truthy_str (Some (toUpperCase src))" by (simp add: truthy_str_def)
  have ex: "list_ex (\<lambda>lqs. str_includes (toUpperCase src) lqs) LOW_QUALITY_TERMS"
    using assms(2,3) by (auto simp: list_ex_iff)
  show ?thesis
    using tr ex assms(1)
    by (simp add: getQualityRank_def Let_def list_ex_upper_terms str_of_def)
qed

text \<open>
  C6. When the upper-cased quality source of the metadata contains one of the terms
  CAM, TS, TELESYNC, TC, TELECINE, SCR, SCREENER, DVDSCR, the classifier returns
  LOW_QUALITY, whatever the resolution (and every other field) is.
\<close>

theorem C6_low_quality_source:
  assumes "qualitySource pm = Some src"
    and "t \<in> set [''CAM'', ''TS'', ''TELESYNC'', ''TC'', ''TELECINE'', ''SCR'', ''SCREENER'', ''DVDSCR'']"
    and "str_includes (toUpperCase src) (toUpperCase t)"
  shows "getQualityRank (Some pm) = LOW_QUALITY"
proof -
  have up: "toUpperCase t = t"
    using assms(2) by (auto simp: toUpperCase_def upper_char_def)
  have "t \<in> set LOW_QUALITY_TERMS"
    using assms(2) by (auto simp: LOW_QUALITY_TERMS_def)
  then show ?thesis
    using getQualityRank_low [OF assms(1)] assms(3) up by simp
qed

theorem C6_witness:
  "qualitySource ((newMetadata ''x'')\<lparr>resolution := Some ''1080p'', qualitySource := Some ''HDCam''\<rparr>) = Some ''HDCam''
   \<and> ''CAM'' \<in> set [''CAM'', ''TS'', ''TELESYNC'', ''TC'', ''TELECINE'', ''SCR'', ''SCREENER'', ''DVDSCR'']
   \<and> str_includes (toUpperCase ''HDCam'') (toUpperCase ''CAM'')
   \<and> getQualityRank (Some ((newMetadata ''x'')\<lparr>resolution := Some ''1080p'', qualitySource := Some ''HDCam''\<rparr>)) = LOW_QUALITY"
proof -
  have h1: "qualitySource ((newMetadata ''x'')\<lparr>resolution := Some ''1080p'', qualitySource := Some ''HDCam''\<rparr>) = Some ''HDCam''"
    by (simp add: newMetadata_def)
  have h2: "''CAM'' \<in> set [''CAM'', ''TS'', ''TELESYNC'', ''TC'', ''TELECINE'', ''SCR'', ''SCREENER'', ''DVDSCR'']"
    by simp
  have h3: "str_includes (toUpperCase ''HDCam'') (toUpperCase ''CAM'')"
    by code_simp
  show ?thesis using h1 h2 h3 C6_low_quality_source [OF h1 h2 h3] by simp
qed

section \<open>The low-quality filter\<close>

lemma not_low_no_term:
  assumes "getQualityRank (Some pm) \<noteq> LOW_QUALITY"
  shows "\<not> (truthy_str (map_option toUpperCase (qualitySource pm))
            \<and> list_ex (\<lambda>lqTerm. str_includes (str_of (map_option toUpperCase (qualitySource pm))) lqTerm)
                 LOW_QUALITY_TERMS)"
  using assms
  by (auto simp: getQualityRank_def Let_def list_ex_upper_terms)

lemma keepStream_iff:
  "keepStream s \<longleftrightarrow>
     rankOf s \<noteq> LOW_QUALITY \<and> rankOf s \<noteq> UNKNOWN
     \<and> \<not> (hasLowQualityResolution s \<and> rankValue (rankOf s) < rankValue DVD)"
proof (cases "stream_parsedMeta s")
  case None
  then show ?thesis
    by (simp add: keepStream_def rankOf_def getQualityRank_def)
next
  case (Some pm)
  have res: "(truthy_str (map_option toUpperCase (resolution pm))
              \<and> List.member LOW_QUALITY_RESOLUTIONS (str_of (map_option toUpperCase (resolution pm))))
             = hasLowQualityResolution s"
    using Some
    by (cases "resolution pm")
       (auto simp: hasLowQualityResolution_def truthy_str_def str_of_def
                   LOW_QUALITY_RESOLUTIONS_def)
  show ?thesis
  proof (cases "getQualityRank (Some pm) = LOW_QUALITY")
    case True
    then show ?thesis using Some by (simp add: keepStream_def rankOf_def)
  next
    case False
    from not_low_no_term [OF False] have nt:
      "\<not> (truthy_str (map_option toUpperCase (qualitySource pm))
            \<and> list_ex (\<lambda>lqTerm. str_includes (str_of (map_option toUpperCase (qualitySource pm))) lqTerm)
                 LOW_QUALITY_TERMS)" .
    have "keepStream s \<longleftrightarrow>
            \<not> (getQualityRank (Some pm) = LOW_QUALITY \<or> getQualityRank (Some pm) = UNKNOWN)
            \<and> \<not> (hasLowQualityResolution s
                   \<and> rankValue (getQualityRank (Some pm)) < rankValue DVD)"
      unfolding keepStream_def Let_def Some option.case using nt res by (simp only: simp_thms if_False if_True split: if_splits) blast
    then show ?thesis using Some by (simp add: rankOf_def)
  qed
qed

text \<open>
  C4. The low-quality filter leaves the list as it is unless some stream that is left
  after the seeders filter has a rank of at least HDTV_720P. When the filter is switched
  on and there is such a stream, it keeps exactly the streams whose rank is neither
  LOW_QUALITY nor UNKNOWN and that do not have a low-quality resolution together with a
  rank below DVD. A stream of rank DVD is always kept.
\<close>

theorem C4_low_quality_elimination:
  "(\<not> (\<exists>s \<in> set streams. rankValue (rankOf s) \<ge> rankValue HDTV_720P)
      \<longrightarrow> lowQualityFilter config streams = streams)
   \<and> (filterLowQuality config \<and> (\<exists>s \<in> set streams. rankValue (rankOf s) \<ge> rankValue HDTV_720P)
      \<longrightarrow> lowQualityFilter config streams
          = filter (\<lambda>s. rankOf s \<noteq> LOW_QUALITY \<and> rankOf s \<noteq> UNKNOWN
                        \<and> \<not> (hasLowQualityResolution s \<and> rankValue (rankOf s) < rankValue DVD))
                   streams)
   \<and> (\<forall>s \<in> set streams. rankOf s = DVD \<longrightarrow> s \<in> set (lowQualityFilter config streams))"
proof -
  have hq: "list_ex (\<lambda>stream. rankValue (getQualityRank (stream_parsedMeta stream))
                                 \<ge> rankValue HDTV_720P) streams
            = (\<exists>s \<in> set streams. rankValue (rankOf s) \<ge> rankValue HDTV_720P)"
    by (simp add: list_ex_iff rankOf_def)
  have a: "\<not> (\<exists>s \<in> set streams. rankValue (rankOf s) \<ge> rankValue HDTV_720P)
           \<Longrightarrow> lowQualityFilter config streams = streams"
    using hq by (simp add: lowQualityFilter_def Let_def)
  have b: "filterLowQuality config \<Longrightarrow> \<exists>s \<in> set streams. rankValue (rankOf s) \<ge> rankValue HDTV_720P
           \<Longrightarrow> lowQualityFilter config streams = filter keepStream streams"
    using hq by (auto simp: lowQualityFilter_def Let_def)
  have c: "s \<in> set (lowQualityFilter config streams)" if "s \<in> set streams" "rankOf s = DVD" for s
  proof -
    have "keepStream s" using that(2) by (simp add: keepStream_iff)
    then show ?thesis using that(1) by (simp add: lowQualityFilter_def Let_def)
  qed
  have b': "filterLowQuality config \<and> (\<exists>s \<in> set streams. rankValue (rankOf s) \<ge> rankValue HDTV_720P)
      \<longrightarrow> lowQualityFilter config streams
          = filter (\<lambda>s. rankOf s \<noteq> LOW_QUALITY \<and> rankOf s \<noteq> UNKNOWN
                        \<and> \<not> (hasLowQualityResolution s \<and> rankValue (rankOf s) < rankValue DVD))
                   streams"
    using b keepStream_iff by presburger
  from a b' c show ?thesis by blast
qed

theorem C4_witness:
  "filterLowQuality sampleConfig
   \<and> (\<exists>s \<in> set [streamWith None (Some ''CAM''), streamWith (Some ''480p'') None,
                  streamWith (Some ''480p'') (Some ''DVDRip''),
                  streamWith (Some ''1080p'') (Some ''BluRay'')].
         rankValue (rankOf s) \<ge> rankValue HDTV_720P)
   \<and> rankOf (streamWith (Some ''480p'') (Some ''DVDRip'')) = DVD
   \<and> lowQualityFilter sampleConfig
        [streamWith None (Some ''CAM''), streamWith (Some ''480p'') None,
         streamWith (Some ''480p'') (Some ''DVDRip''), streamWith (Some ''1080p'') (Some ''BluRay'')]
       = [streamWith (Some ''480p'') (Some ''DVDRip''), streamWith (Some ''1080p'') (Some ''BluRay'')]"
proof -
  let ?xs = "[streamWith None (Some ''CAM''), streamWith (Some ''480p'') None,
              streamWith (Some ''480p'') (Some ''DVDRip''),
              streamWith (Some ''1080p'') (Some ''BluRay'')]"
  have r1: "rankOf (streamWith None (Some ''CAM'')) = LOW_QUALITY" by code_simp
  have r2: "rankOf (streamWith (Some ''480p'') None) = SD" by code_simp
  have r3: "rankOf (streamWith (Some ''480p'') (Some ''DVDRip'')) = DVD" by code_simp
  have r4: "rankOf (streamWith (Some ''1080p'') (Some ''BluRay'')) = BLURAY_1080P" by code_simp
  have l2: "hasLowQualityResolution (streamWith (Some ''480p'') None)" by code_simp
  have on: "filterLowQuality sampleConfig" by (simp add: sampleConfig_def)
  have hq: "\<exists>s \<in> set ?xs. rankValue (rankOf s) \<ge> rankValue HDTV_720P"
    by (simp add: r4)
  from C4_low_quality_elimination [of ?xs sampleConfig] on hq
  have "lowQualityFilter sampleConfig ?xs
        = filter (\<lambda>s. rankOf s \<noteq> LOW_QUALITY \<and> rankOf s \<noteq> UNKNOWN
                     \<and> \<not> (hasLowQualityResolution s \<and> rankValue (rankOf s) < rankValue DVD)) ?xs"
    by blast
  then have "lowQualityFilter sampleConfig ?xs
             = [streamWith (Some ''480p'') (Some ''DVDRip''), streamWith (Some ''1080p'') (Some ''BluRay'')]"
    by (simp add: r1 r2 r3 r4 l2)
  with on hq r3 show ?thesis by blast
qed

section \<open>Seeders\<close>

lemma seeders_assign_field [simp]: "seeders (assign_field f v m) = seeders m"
  by (cases "(f, v, m)" rule: assign_field.cases) simp_all

lemma seeders_extractFirstMatch [simp]:
  "seeders (extractFirstMatch regex f tr w m) = seeders m"
  by (simp add: extractFirstMatch_def Let_def split: option.splits)

lemma seeders_extractAllMatches [simp]:
  "seeders (extractAllMatches regex f u tr w m) = seeders m"
  by (simp add: extractAllMatches_def Let_def)

lemma seeders_steps [simp]:
  "seeders (step1_year y w m) = seeders m"
  "seeders (step2_episodeInfo w m) = seeders m"
  "seeders (step3_resolution w m) = seeders m"
  "seeders (step4_qualitySource w m) = seeders m"
  "seeders (step5_videoCodec w m) = seeders m"
  "seeders (step6_audioCodec w m) = seeders m"
  "seeders (step7_hdr_3d w m) = seeders m"
  "seeders (step8_languages w m) = seeders m"
  "seeders (step9_releaseGroup w m) = seeders m"
  "seeders (step10_size w m) = seeders m"
  "seeders (step11_cleanedTitle w st m) = seeders m"
  "seeders (step12_year st m) = seeders m"
  by (simp_all add: step1_year_def step2_episodeInfo_def step3_resolution_def
        step4_qualitySource_def step5_videoCodec_def step6_audioCodec_def step7_hdr_3d_def
        step8_languages_def step9_releaseGroup_def step10_size_def step11_cleanedTitle_def
        step12_year_def Let_def split: option.splits audio.splits)

lemma seeders_parseTorrentTitle: "seeders (parseTorrentTitle ttl st y) = None"
  by (simp add: parseTorrentTitle_def newMetadata_def)

lemma streamOf_seeders:
  assumes "streamOf itemType season episode torrent pm = Some s"
  shows "stream_seeders s = or_else (or_else (torrent_seeders torrent) (seeders pm)) (Some 0)"
  using assms by (auto simp: streamOf_def Let_def split: if_splits)

lemma set_insert_by: "set (insert_by cmp x ys) = insert x (set ys)"
  by (induction ys) auto

lemma set_sort_by: "set (sort_by cmp xs) = set xs"
  by (induction xs) (simp_all add: sort_by_def set_insert_by)

lemma set_lowQualityFilter: "set (lowQualityFilter config xs) \<subseteq> set xs"
  by (auto simp: lowQualityFilter_def Let_def)

text \<open>
  C10. A stream that the pipeline builds from a record has a number for its seeders: the
  seeders of the record, or 0 when the record has none (the parser never sets seeders).
  So when \<open>minSeeders\<close> is above 0, a stream built from a record without seeders passes
  neither the seeders filter nor, therefore, the pipeline.
\<close>

theorem C10_seeders_default:
  assumes "toStream itemType season episode standardizedTitle standardizedYear currentYear torrent
             = Some s"
  shows "stream_seeders s = Some (num_or_0 (torrent_seeders torrent))
         \<and> (torrent_seeders torrent = None \<longrightarrow> stream_seeders s = Some 0)
         \<and> (minSeeders config > 0 \<and> torrent_seeders torrent = None
              \<longrightarrow> s \<notin> set (minSeedersFilter config streams)
                  \<and> s \<notin> set (processResults itemType season episode standardizedTitle
                                standardizedYear currentYear config rawResults))"
proof -
  have sd: "stream_seeders s = Some (num_or_0 (torrent_seeders torrent))"
    using streamOf_seeders [of itemType season episode torrent _ s] assms
    by (auto simp: toStream_def Let_def seeders_parseTorrentTitle or_else_def num_or_0_def
             split: option.splits)
  have flt: "s \<notin> set (minSeedersFilter config xs)"
    if "minSeeders config > 0" "torrent_seeders torrent = None" for xs
    using that sd by (auto simp: minSeedersFilter_def num_or_0_def)
  have sub: "set (processResults itemType season episode standardizedTitle standardizedYear
                    currentYear config rawResults)
             \<subseteq> set (minSeedersFilter config
                      (List.map_filter
                         (toStream itemType season episode standardizedTitle standardizedYear
                            currentYear)
                         (uniqueResults rawResults)))"
    unfolding processResults_def set_sort_by by (rule set_lowQualityFilter)
  show ?thesis using sd flt sub by (auto simp: num_or_0_def)
qed

theorem C10_witness:
  "\<exists>s. toStream Movie None None ''Movie'' None 2026 torrentC = Some s
       \<and> stream_seeders s = Some 0
       \<and> minSeeders sampleConfig > 0 \<and> torrent_seeders torrentC = None
       \<and> s \<notin> set (minSeedersFilter sampleConfig [s])"
proof -
  obtain s where s: "toStream Movie None None ''Movie'' None 2026 torrentC = Some s"
    by (simp add: toStream_def streamOf_def rejectedByEpisode_def Let_def)
  have m: "minSeeders sampleConfig > 0" by (simp add: sampleConfig_def)
  have n: "torrent_seeders torrentC = None" by (simp add: torrentC_def)
  from C10_seeders_default [OF s, of sampleConfig "[s]"] m n s show ?thesis by blast
qed

section \<open>De-duplication\<close>

lemma map_fst_map_set:
  "map fst (map_set m k v) = (if k \<in> set (map fst m) then map fst m else map fst m @ [k])"
  by (induction m k v rule: map_set.induct) auto

lemma map_of_map_set:
  "map_of (map_set m k v) = (map_of m)(k \<mapsto> v)"
  by (induction m k v rule: map_set.induct) (auto simp: fun_eq_iff)

lemma set_uniq: "set (uniq xs) = set xs"
  by (induction xs rule: uniq.induct) auto

lemma distinct_uniq: "distinct (uniq xs)"
  by (induction xs rule: uniq.induct) (auto simp: set_uniq)

lemma foldl_map_set_keys:
  "map fst (foldl (\<lambda>m (k, v). map_set m k v) m es)
   = map fst m @ uniq (filter (\<lambda>k. k \<notin> set (map fst m)) (map fst es))"
proof (induction es arbitrary: m)
  case Nil
  then show ?case by simp
next
  case (Cons e es)
  obtain k v where e: "e = (k, v)" by (cases e)
  show ?case
  proof (cases "k \<in> set (map fst m)")
    case True
    then have "map fst (map_set m k v) = map fst m"
      by (simp add: map_fst_map_set)
    then show ?thesis
      using Cons [of "map_set m k v"] True e by simp
  next
    case False
    then have keys: "map fst (map_set m k v) = map fst m @ [k]"
      by (simp add: map_fst_map_set)
    have "filter (\<lambda>x. x \<notin> set (map fst m @ [k])) (map fst es)
          = filter (\<lambda>y. y \<noteq> k) (filter (\<lambda>x. x \<notin> set (map fst m)) (map fst es))"
      by (induction es) auto
    then show ?thesis
      using Cons [of "map_set m k v"] False e keys by simp
  qed
qed

lemma foldl_map_set_lookup:
  "map_of (foldl (\<lambda>m (k, v). map_set m k v) m es) k
   = (case filter (\<lambda>e. fst e = k) es of [] \<Rightarrow> map_of m k | x # xs \<Rightarrow> Some (snd (last (x # xs))))"
proof (induction es arbitrary: m)
  case Nil
  then show ?case by simp
next
  case (Cons e es)
  obtain k' v where e: "e = (k', v)" by (cases e)
  show ?case
  proof (cases "filter (\<lambda>e. fst e = k) es")
    case Nil
    then show ?thesis
      using Cons [of "map_set m k' v"] e by (auto simp: map_of_map_set)
  next
    case (Cons y ys)
    then show ?thesis
      using Cons.IH [of "map_set m k' v"] e by auto
  qed
qed

lemma new_Map_keys: "map fst (new_Map es) = uniq (map fst es)"
  using foldl_map_set_keys [of "[]" es] by (simp add: new_Map_def)

lemma new_Map_lookup:
  "map_of (new_Map es) k
   = (case filter (\<lambda>e. fst e = k) es of [] \<Rightarrow> None | x # xs \<Rightarrow> Some (snd (last (x # xs))))"
  using foldl_map_set_lookup [of "[]" es k] by (simp add: new_Map_def split: list.splits)

lemma new_Map_entry:
  assumes "(k, v) \<in> set (new_Map es)"
  shows "filter (\<lambda>e. fst e = k) es \<noteq> [] \<and> v = snd (last (filter (\<lambda>e. fst e = k) es))"
proof -
  have "distinct (map fst (new_Map es))"
    by (simp add: new_Map_keys distinct_uniq)
  with assms have "map_of (new_Map es) k = Some v" by simp
  then show ?thesis
    by (simp add: new_Map_lookup split: list.splits)
qed

lemma uniqueResults_entries:
  assumes "r \<in> set (uniqueResults rawResults)"
  shows "filter (\<lambda>x. torrent_infoHash x = torrent_infoHash r) rawResults \<noteq> []
         \<and> r = last (filter (\<lambda>x. torrent_infoHash x = torrent_infoHash r) rawResults)"
proof -
  let ?f = "\<lambda>item. (torrent_infoHash item, item)"
  from assms obtain k where kr: "(k, r) \<in> set (new_Map (map ?f rawResults))"
    by (auto simp: uniqueResults_def)
  have flt: "filter (\<lambda>e. fst e = k) (map ?f rawResults)
             = map ?f (filter (\<lambda>x. torrent_infoHash x = k) rawResults)"
    by (simp add: filter_map comp_def)
  from new_Map_entry [OF kr] have ne: "filter (\<lambda>x. torrent_infoHash x = k) rawResults \<noteq> []"
    and r: "r = last (filter (\<lambda>x. torrent_infoHash x = k) rawResults)"
    unfolding flt by (simp_all add: last_map)
  from ne r have "r \<in> set (filter (\<lambda>x. torrent_infoHash x = k) rawResults)"
    using last_in_set by metis
  then have "torrent_infoHash r = k" by simp
  with ne r show ?thesis by simp
qed

lemma uniqueResults_hashes:
  "map torrent_infoHash (uniqueResults rawResults) = uniq (map torrent_infoHash rawResults)"
proof -
  let ?f = "\<lambda>item. (torrent_infoHash item, item)"
  have "\<forall>e \<in> set (new_Map (map ?f rawResults)). torrent_infoHash (snd e) = fst e"
  proof
    fix e assume e: "e \<in> set (new_Map (map ?f rawResults))"
    then have "snd e \<in> set (uniqueResults rawResults)"
      by (auto simp: uniqueResults_def)
    from uniqueResults_entries [OF this]
    have ne: "filter (\<lambda>x. torrent_infoHash x = torrent_infoHash (snd e)) rawResults \<noteq> []" by simp
    have kv: "(fst e, snd e) \<in> set (new_Map (map ?f rawResults))" using e by simp
    have flt: "filter (\<lambda>e'. fst e' = fst e) (map ?f rawResults)
               = map ?f (filter (\<lambda>x. torrent_infoHash x = fst e) rawResults)"
      by (simp add: filter_map comp_def)
    from new_Map_entry [OF kv] have ne': "filter (\<lambda>x. torrent_infoHash x = fst e) rawResults \<noteq> []"
      and r: "snd e = last (filter (\<lambda>x. torrent_infoHash x = fst e) rawResults)"
      unfolding flt by (simp_all add: last_map)
    from ne' r have "snd e \<in> set (filter (\<lambda>x. torrent_infoHash x = fst e) rawResults)"
      using last_in_set by metis
    then show "torrent_infoHash (snd e) = fst e" by simp
  qed
  then have "map (\<lambda>e. torrent_infoHash (snd e)) (new_Map (map ?f rawResults))
             = map fst (new_Map (map ?f rawResults))"
    by (simp cong: map_cong)
  then show ?thesis
    by (simp add: uniqueResults_def new_Map_keys comp_def)
qed

text \<open>
  C1, as the code has it. De-duplication leaves one record for each infoHash, in the
  order in which the infoHashes first appear; the record that is kept for an infoHash is
  the last one of the input with that infoHash.
\<close>

theorem C1_dedup_keeps_last:
  "map torrent_infoHash (uniqueResults rawResults) = uniq (map torrent_infoHash rawResults)
   \<and> distinct (map torrent_infoHash (uniqueResults rawResults))
   \<and> (\<forall>r \<in> set (uniqueResults rawResults).
         r = last (filter (\<lambda>x. torrent_infoHash x = torrent_infoHash r) rawResults))"
  using uniqueResults_hashes [of rawResults] uniqueResults_entries [of _ rawResults]
  by (simp add: distinct_uniq)

text \<open>
  C1, as the spec words it, fails: of two records with one infoHash the second is kept,
  not the first.
\<close>

theorem C1_counterexample:
  "torrent_infoHash torrentA = torrent_infoHash torrentB
   \<and> uniqueResults [torrentA, torrentB] = [torrentB]
   \<and> torrentB \<noteq> torrentA"
  by (simp add: uniqueResults_def new_Map_def torrentA_def torrentB_def)

theorem C1_witness:
  "torrentB \<in> set (uniqueResults [torrentA, torrentB])
   \<and> torrentB = last (filter (\<lambda>x. torrent_infoHash x = torrent_infoHash torrentB)
                           [torrentA, torrentB])"
proof -
  have mem: "torrentB \<in> set (uniqueResults [torrentA, torrentB])"
    by (simp add: uniqueResults_def new_Map_def torrentA_def torrentB_def)
  from C1_dedup_keeps_last [of "[torrentA, torrentB]"] mem show ?thesis by blast
qed

section \<open>The quality sort key\<close>

lemma indexOf_ge: "indexOf xs x \<ge> -1"
  by (induction xs) (auto simp: Let_def)

lemma indexOf_absent: "indexOf xs x = -1 \<longleftrightarrow> x \<notin> set xs"
proof (induction xs)
  case Nil
  then show ?case by simp
next
  case (Cons y ys)
  then show ?case using indexOf_ge [of ys x] by (auto simp: Let_def)
qed

lemma indexOf_position: "x \<in> set xs \<Longrightarrow> indexOf xs x = int (position xs x)"
  by (induction xs) (auto simp: Let_def position_def indexOf_absent)

text \<open>
  C8. For two streams of equal quality rank the comparison of the quality key goes by
  the positions of their resolutions (upper-cased, \<open>UNKNOWN\<close> when there is none) in
  \<open>qualitySortOrder\<close>: it is negative, which puts the first stream ahead, exactly when
  the first resolution comes earlier, and positive exactly when it comes later; a stream
  whose resolution is in the list is put ahead of one whose resolution is not; two
  streams whose resolutions are both missing from the list compare equal.
\<close>

theorem C8_quality_tie_break:
  assumes "stream_parsedMeta a = Some pa" and "stream_parsedMeta b = Some pb"
    and "getQualityRank (Some pa) = getQualityRank (Some pb)"
  shows "(res_of pa \<in> set (qualitySortOrder config) \<and> res_of pb \<in> set (qualitySortOrder config)
            \<longrightarrow> (comparison config Quality a b < 0
                   \<longleftrightarrow> position (qualitySortOrder config) (res_of pa)
                         < position (qualitySortOrder config) (res_of pb))
               \<and> (comparison config Quality a b > 0
                   \<longleftrightarrow> position (qualitySortOrder config) (res_of pa)
                         > position (qualitySortOrder config) (res_of pb)))
         \<and> (res_of pa \<in> set (qualitySortOrder config) \<and> res_of pb \<notin> set (qualitySortOrder config)
            \<longrightarrow> comparison config Quality a b < 0)
         \<and> (res_of pa \<notin> set (qualitySortOrder config) \<and> res_of pb \<in> set (qualitySortOrder config)
            \<longrightarrow> comparison config Quality a b > 0)
         \<and> (res_of pa \<notin> set (qualitySortOrder config) \<and> res_of pb \<notin> set (qualitySortOrder config)
            \<longrightarrow> comparison config Quality a b = 0)"
  using assms
  by (auto simp: Let_def indexOf_absent indexOf_position)

theorem C8_witness:
  "getQualityRank (stream_parsedMeta (streamWith (Some ''1080p'') None))
     = getQualityRank (stream_parsedMeta (streamWith (Some ''720p'') None))
   \<and> position (qualitySortOrder sampleConfig) ''1080P'' < position (qualitySortOrder sampleConfig) ''720P''
   \<and> comparison sampleConfig Quality (streamWith (Some ''1080p'') None) (streamWith (Some ''720p'') None) < 0
   \<and> comparison sampleConfig Quality (streamWith (Some ''1080p'') None) (streamWith (Some ''8K'') None) < 0"
proof -
  let ?pa = "(newMetadata ''x'')\<lparr>resolution := Some ''1080p'', qualitySource := None\<rparr>"
  let ?pb = "(newMetadata ''x'')\<lparr>resolution := Some ''720p'', qualitySource := None\<rparr>"
  let ?pc = "(newMetadata ''x'')\<lparr>resolution := Some ''8K'', qualitySource := None\<rparr>"
  have a: "stream_parsedMeta (streamWith (Some ''1080p'') None) = Some ?pa"
    and b: "stream_parsedMeta (streamWith (Some ''720p'') None) = Some ?pb"
    and c: "stream_parsedMeta (streamWith (Some ''8K'') None) = Some ?pc"
    by (simp_all add: streamWith_def)
  have rab: "getQualityRank (Some ?pa) = getQualityRank (Some ?pb)" by code_simp
  have rac: "getQualityRank (Some ?pa) = getQualityRank (Some ?pc)" by code_simp
  have ra: "res_of ?pa = ''1080P''" and rb: "res_of ?pb = ''720P''" and rc: "res_of ?pc = ''8K''"
    by code_simp+
  have pos: "position (qualitySortOrder sampleConfig) ''1080P''
             < position (qualitySortOrder sampleConfig) ''720P''"
    by (simp add: position_def sampleConfig_def)
  have mem: "''1080P'' \<in> set (qualitySortOrder sampleConfig)"
    "''720P'' \<in> set (qualitySortOrder sampleConfig)"
    "''8K'' \<notin> set (qualitySortOrder sampleConfig)"
    by (simp_all add: sampleConfig_def)
  from C8_quality_tie_break [OF a b rab, of sampleConfig] ra rb pos mem
  have 1: "comparison sampleConfig Quality (streamWith (Some ''1080p'') None)
             (streamWith (Some ''720p'') None) < 0"
    by simp
  from C8_quality_tie_break [OF a c rac, of sampleConfig] ra rc mem
  have 2: "comparison sampleConfig Quality (streamWith (Some ''1080p'') None)
             (streamWith (Some ''8K'') None) < 0"
    by simp
  from 1 2 pos rab a b show ?thesis by simp
qed

section \<open>The matcher\<close>

lemma char_eq_canon: "char_eq ic a b \<longleftrightarrow> canon ic a = canon ic b"
  by (simp add: char_eq_def canon_def)

lemma match_chars_Some:
  "match_chars ic w p s = Some (p', s') \<longleftrightarrow>
     (\<exists>u. s = u @ s' \<and> map (canon ic) u = map (canon ic) w
          \<and> p' = (if u = [] then p else Some (last u)))"
proof (induction ic w p s rule: match_chars.induct)
  case (1 ic p s)
  then show ?case by auto
next
  case (2 ic c cs p)
  then show ?case by auto
next
  case (3 ic c cs p x xs)
  show ?case
  proof (cases "char_eq ic c x")
    case True
    have "(\<exists>u. x # xs = u @ s' \<and> map (canon ic) u = map (canon ic) (c # cs)
              \<and> p' = (if u = [] then p else Some (last u)))
          \<longleftrightarrow> (\<exists>u'. xs = u' @ s' \<and> map (canon ic) u' = map (canon ic) cs
              \<and> p' = (if u' = [] then Some x else Some (last u')))"
      (is "?L \<longleftrightarrow> ?R")
    proof
      assume ?L
      then obtain u where u: "x # xs = u @ s'" "map (canon ic) u = map (canon ic) (c # cs)"
        "p' = (if u = [] then p else Some (last u))" by blast
      from u(2) obtain y u' where yu: "u = y # u'" by (cases u) auto
      with u show ?R by (auto split: if_splits)
    next
      assume ?R
      then obtain u' where u': "xs = u' @ s'" "map (canon ic) u' = map (canon ic) cs"
        "p' = (if u' = [] then Some x else Some (last u'))" by blast
      show ?L
        by (rule exI [of _ "x # u'"]) (use u' True in \<open>auto simp: char_eq_canon\<close>)
    qed
    with 3 True show ?thesis by simp
  next
    case False
    then show ?thesis by (auto simp: char_eq_canon Cons_eq_append_conv)
  qed
qed

lemma match_chars_None:
  "match_chars ic w p s = None \<longleftrightarrow> \<not> prefix (map (canon ic) w) (map (canon ic) s)"
proof (induction ic w p s rule: match_chars.induct)
  case (1 ic p s)
  then show ?case by simp
next
  case (2 ic c cs p)
  then show ?case by simp
next
  case (3 ic c cs p x xs)
  then show ?case by (auto simp: char_eq_canon)
qed

text \<open>Every result of the matcher leaves a suffix of the text it started from.\<close>

lemma star_iter_suffix:
  assumes "\<And>st st'. st' \<in> set (f st) \<Longrightarrow> suffix (fst (snd st')) (fst (snd st))"
    and "st' \<in> set (star_iter f k st)"
  shows "suffix (fst (snd st')) (fst (snd st))"
  using assms(2)
proof (induction k arbitrary: st)
  case 0
  then show ?case by simp
next
  case (Suc k)
  from Suc.prems consider "st' = st"
    | mid where "mid \<in> set (f st)" "st' \<in> set (star_iter f k mid)"
    by (auto split: if_splits)
  then show ?case
  proof cases
    case 1
    then show ?thesis by simp
  next
    case 2
    from Suc.IH [OF 2(2)] assms(1) [OF 2(1)] show ?thesis
      by (rule suffix_order.trans)
  qed
qed

lemma rep_iter_suffix:
  assumes "\<And>st st'. st' \<in> set (f st) \<Longrightarrow> suffix (fst (snd st')) (fst (snd st))"
    and "st' \<in> set (rep_iter f lo hi st)"
  shows "suffix (fst (snd st')) (fst (snd st))"
  using assms(2)
proof (induction hi arbitrary: st lo)
  case 0
  then show ?case by simp
next
  case (Suc hi)
  from Suc.prems consider "st' = st"
    | mid where "mid \<in> set (f st)" "st' \<in> set (rep_iter f (lo - 1) hi mid)"
    by (auto split: if_splits)
  then show ?case
  proof cases
    case 1
    then show ?thesis by simp
  next
    case 2
    from Suc.IH [OF 2(2)] assms(1) [OF 2(1)] show ?thesis
      by (rule suffix_order.trans)
  qed
qed

lemma rmatch_suffix:
  "st' \<in> set (rmatch ic r st) \<Longrightarrow> suffix (fst (snd st')) (fst (snd st))"
proof (induction r arbitrary: st st')
  case (Chars w)
  obtain p s c where st: "st = (p, s, c)" by (cases st)
  from Chars st obtain p' s' where "match_chars ic w p s = Some (p', s')" "st' = (p', s', c)"
    by (cases "match_chars ic w p s") auto
  then show ?case using st by (auto simp: match_chars_Some suffix_def)
next
  case (Cls cs)
  then show ?case by (cases st) (auto simp: suffix_def split: list.splits if_splits)
next
  case Space
  then show ?case by (cases st) (auto simp: suffix_def split: list.splits if_splits)
next
  case (NotAfter cs)
  then show ?case by (cases st) (auto split: option.splits if_splits)
next
  case (Seq a b)
  from Seq.prems obtain mid where m: "mid \<in> set (rmatch ic a st)" "st' \<in> set (rmatch ic b mid)"
    by auto
  from Seq.IH(2) [OF m(2)] Seq.IH(1) [OF m(1)] show ?case
    by (rule suffix_order.trans)
next
  case (Star r)
  then show ?case using star_iter_suffix [of "\<lambda>st'. rmatch ic r st'"] by auto
next
  case (Rep lo hi r)
  then show ?case using rep_iter_suffix [of "\<lambda>st'. rmatch ic r st'"] by auto
next
  case (Grp n r)
  then show ?case by (cases st) fastforce
qed (auto split: if_splits)

lemma prev_of_Nil [simp]: "prev_of p [] = p"
  by (simp add: prev_of_def)

lemma prev_of_Cons: "prev_of p (c # pre) = prev_of (Some c) pre"
  by (simp add: prev_of_def)

lemma search_at:
  assumes "rmatch (fst pat) (snd pat) (prev_of p pre, suf, []) = (p', s', caps) # sts"
    and "\<And>pre1 pre2. pre = pre1 @ pre2 \<Longrightarrow> pre2 \<noteq> []
           \<Longrightarrow> rmatch (fst pat) (snd pat) (prev_of p pre1, pre2 @ suf, []) = []"
  shows "search pat p (pre @ suf)
         = Some \<lparr>m_before = pre, m_text = take (length suf - length s') suf, m_groups = caps,
                 m_prev = p', m_rest = s'\<rparr>"
  using assms
proof (induction pre arbitrary: p)
  case Nil
  then show ?case by (cases suf) simp_all
next
  case (Cons c pre)
  have none: "rmatch (fst pat) (snd pat) (p, (c # pre) @ suf, []) = []"
    using Cons.prems(2) [of "[]" "c # pre"] by simp
  have 1: "rmatch (fst pat) (snd pat) (prev_of (Some c) pre, suf, []) = (p', s', caps) # sts"
    using Cons.prems(1) by (simp add: prev_of_Cons)
  have 2: "rmatch (fst pat) (snd pat) (prev_of (Some c) pre1, pre2 @ suf, []) = []"
    if "pre = pre1 @ pre2" "pre2 \<noteq> []" for pre1 pre2
    using Cons.prems(2) [of "c # pre1" pre2] that by (simp add: prev_of_Cons)
  from Cons.IH [OF 1 2] none show ?case by simp
qed

lemma found_at_Cons:
  assumes "found_at pat (Some c) pre suf m'"
    and "rmatch (fst pat) (snd pat) (p, c # pre @ suf, []) = []"
  shows "found_at pat p (c # pre) suf (m'\<lparr>m_before := c # m_before m'\<rparr>)"
proof -
  have "rmatch (fst pat) (snd pat) (prev_of p pre1, pre2 @ suf, []) = []"
    if s: "c # pre = pre1 @ pre2" "pre2 \<noteq> []" for pre1 pre2
  proof (cases pre1)
    case Nil
    then show ?thesis using s assms(2) by auto
  next
    case (Cons d pre1')
    then have "pre = pre1' @ pre2" "d = c" using s by simp_all
    with assms(1) s(2) Cons show ?thesis
      unfolding found_at_def by (simp add: prev_of_Cons)
  qed
  with assms(1) show ?thesis
    unfolding found_at_def by (auto simp: prev_of_Cons)
qed

lemma search_Some_found:
  "search pat p s = Some m \<Longrightarrow> \<exists>pre suf. s = pre @ suf \<and> found_at pat p pre suf m"
proof (induction s arbitrary: p m)
  case Nil
  then have "found_at pat p [] [] m"
    unfolding found_at_def by (auto split: list.splits)
  then show ?case by simp
next
  case (Cons c cs)
  show ?case
  proof (cases "rmatch (fst pat) (snd pat) (p, c # cs, [])")
    case Nil
    with Cons.prems obtain m' where m': "search pat (Some c) cs = Some m'"
      and mm: "m = m'\<lparr>m_before := c # m_before m'\<rparr>"
      by auto
    from Cons.IH [OF m'] obtain pre suf where ps: "cs = pre @ suf" "found_at pat (Some c) pre suf m'"
      by blast
    from found_at_Cons [OF ps(2)] Nil ps(1) mm have "found_at pat p (c # pre) suf m" by simp
    with ps(1) show ?thesis by (metis append_Cons)
  next
    case (Cons st sts)
    with Cons.prems have "found_at pat p [] (c # cs) m"
      unfolding found_at_def by (cases st) auto
    then show ?thesis by (metis append_Nil)
  qed
qed

lemma search_found: "found_at pat p pre suf m \<Longrightarrow> search pat p (pre @ suf) = Some m"
  unfolding found_at_def using search_at [of pat p pre suf] by blast

lemma search_None_iff:
  "search pat p s = None \<longleftrightarrow>
     (\<forall>pre suf. s = pre @ suf \<longrightarrow> rmatch (fst pat) (snd pat) (prev_of p pre, suf, []) = [])"
proof (induction s arbitrary: p)
  case Nil
  then show ?case by (auto split: list.splits)
next
  case (Cons c cs)
  show ?case
  proof (cases "rmatch (fst pat) (snd pat) (p, c # cs, [])")
    case Nil
    have "(\<forall>pre suf. c # cs = pre @ suf \<longrightarrow> rmatch (fst pat) (snd pat) (prev_of p pre, suf, []) = [])
          \<longleftrightarrow> (\<forall>pre suf. cs = pre @ suf
                \<longrightarrow> rmatch (fst pat) (snd pat) (prev_of (Some c) pre, suf, []) = [])"
      (is "?L \<longleftrightarrow> ?R")
    proof
      assume l: ?L
      show ?R
      proof (intro allI impI)
        fix pre suf assume "cs = pre @ suf"
        then have "c # cs = (c # pre) @ suf" by simp
        with l have "rmatch (fst pat) (snd pat) (prev_of p (c # pre), suf, []) = []" by blast
        then show "rmatch (fst pat) (snd pat) (prev_of (Some c) pre, suf, []) = []"
          by (simp add: prev_of_Cons)
      qed
    next
      assume r: ?R
      show ?L
      proof (intro allI impI)
        fix pre suf assume s: "c # cs = pre @ suf"
        show "rmatch (fst pat) (snd pat) (prev_of p pre, suf, []) = []"
        proof (cases pre)
          case Nil
          with s \<open>rmatch (fst pat) (snd pat) (p, c # cs, []) = []\<close> show ?thesis by simp
        next
          case (Cons d pre')
          with s have "cs = pre' @ suf" "d = c" by simp_all
          with r Cons show ?thesis by (auto simp: prev_of_Cons)
        qed
      qed
    qed
    with Nil Cons.IH [of "Some c"] show ?thesis by simp
  next
    case (Cons st sts)
    then have "rmatch (fst pat) (snd pat) (prev_of p [], c # cs, []) \<noteq> []" by simp
    then have "\<not> (\<forall>pre suf. c # cs = pre @ suf
                 \<longrightarrow> rmatch (fst pat) (snd pat) (prev_of p pre, suf, []) = [])"
      by (metis append_Nil)
    with Cons show ?thesis by (auto split: prod.splits)
  qed
qed

lemma test_iff:
  "test pat s \<longleftrightarrow>
     (\<exists>pre suf. s = pre @ suf \<and> rmatch (fst pat) (snd pat) (prev_of None pre, suf, []) \<noteq> [])"
  using search_None_iff [of pat None s] by (auto simp: test_def exec_def)

section \<open>Digits and decimal numerals\<close>

lemma upper_char_digit: "is_digit c \<Longrightarrow> upper_char c = c"
  unfolding is_digit_def digit_chars_def
  by (elim disjE | simp add: upper_char_def)+

lemma upper_char_not_digit:
  assumes "\<not> is_digit c"
  shows "\<not> is_digit (upper_char c)"
proof (cases "map_of (zip ''abcdefghijklmnopqrstuvwxyz'' ''ABCDEFGHIJKLMNOPQRSTUVWXYZ'') c")
  case None
  with assms show ?thesis unfolding upper_char_def by simp
next
  case (Some u)
  then have "u \<in> set ''ABCDEFGHIJKLMNOPQRSTUVWXYZ''"
    by (meson map_of_SomeD set_zip_rightD)
  then have "\<not> is_digit u"
    unfolding is_digit_def digit_chars_def by (elim disjE | simp)+
  then show ?thesis unfolding upper_char_def Some by simp
qed

lemma is_digit_upper: "is_digit (upper_char c) = is_digit c"
  using upper_char_digit [of c] upper_char_not_digit [of c] by auto

lemma digit_char_is_digit: "is_digit (digit_char d)"
proof -
  have "d mod 10 < length digit_chars" by (simp add: digit_chars_def)
  then show ?thesis unfolding is_digit_def digit_char_def by (rule nth_mem)
qed

lemma dec_digits: "\<forall>c \<in> set (dec n). is_digit c"
proof (induction n rule: dec.induct)
  case (1 n)
  show ?case
  proof (cases "n < 10")
    case True
    then show ?thesis by (subst dec.simps) (simp add: digit_char_is_digit)
  next
    case False
    with 1 show ?thesis by (subst dec.simps) (simp add: digit_char_is_digit)
  qed
qed

lemma zero_is_digit: "is_digit (CHR ''0'')"
  by (simp add: is_digit_def digit_chars_def)

lemma padStart2_digits: "\<forall>c \<in> set w. is_digit c \<Longrightarrow> \<forall>c \<in> set (padStart2 w). is_digit c"
  by (auto simp: padStart2_def zero_is_digit)

lemma upper_digits: "\<forall>c \<in> set w. is_digit c \<Longrightarrow> map upper_char w = w"
  by (induction w) (simp_all add: upper_char_digit)

section \<open>Patterns of literals\<close>

lemma canon_True [simp]: "canon True = upper_char"
  by (rule ext) (simp add: canon_def)

lemma toUpperCase_simps [simp]:
  "toUpperCase [] = []"
  "toUpperCase (x # xs) = upper_char x # toUpperCase xs"
  "toUpperCase (xs @ ys) = toUpperCase xs @ toUpperCase ys"
  by (simp_all add: toUpperCase_def)

lemma prev_of_append: "prev_of p (u @ v) = prev_of (prev_of p u) v"
  by (simp add: prev_of_def)

lemma words_sound:
  assumes "simple r" and "(p', s', c') \<in> set (rmatch True r (p, s, c))"
  shows "\<exists>u. s = u @ s' \<and> toUpperCase u \<in> set (words r) \<and> p' = prev_of p u"
  using assms
proof (induction r arbitrary: p s c p' s' c')
  case Eps
  then show ?case by simp
next
  case (Chars w)
  then have "match_chars True w p s = Some (p', s')"
    by (cases "match_chars True w p s") auto
  then obtain u where "s = u @ s'" "map (canon True) u = map (canon True) w"
    "p' = (if u = [] then p else Some (last u))"
    unfolding match_chars_Some by blast
  then show ?case
    by (intro exI [of _ u]) (simp add: canon_def toUpperCase_def prev_of_def)
next
  case (Cls cs)
  then obtain x where x: "s = x # s'" "list_ex (char_eq True x) cs" "p' = Some x"
    by (cases s) (auto split: if_splits)
  then have "[upper_char x] \<in> set (map (\<lambda>c. [upper_char c]) cs)"
    by (auto simp: list_ex_iff char_eq_def)
  with x show ?case
    by (intro exI [of _ "[x]"]) (simp add: toUpperCase_def prev_of_def)
next
  case (Seq a b)
  from Seq.prems(2) obtain p1 s1 c1 where
    1: "(p1, s1, c1) \<in> set (rmatch True a (p, s, c))"
    and 2: "(p', s', c') \<in> set (rmatch True b (p1, s1, c1))"
    by auto
  from Seq.IH(1) [OF _ 1] Seq.prems(1) obtain u where
    u: "s = u @ s1" "toUpperCase u \<in> set (words a)" "p1 = prev_of p u" by auto
  from Seq.IH(2) [OF _ 2] Seq.prems(1) obtain v where
    v: "s1 = v @ s'" "toUpperCase v \<in> set (words b)" "p' = prev_of p1 v" by auto
  show ?case
    by (intro exI [of _ "u @ v"]) (use u v in \<open>auto simp: toUpperCase_def prev_of_append\<close>)
next
  case (Alt a b)
  then show ?case by fastforce
next
  case (Grp n r)
  from Grp.prems(2) obtain c0 where "(p', s', c0) \<in> set (rmatch True r (p, s, c))"
    by auto
  from Grp.IH [OF _ this] Grp.prems(1) show ?case by simp
qed simp_all

lemma words_complete:
  assumes "simple r" and "toUpperCase u \<in> set (words r)"
  shows "\<exists>c'. (prev_of p u, s', c') \<in> set (rmatch True r (p, u @ s', c))"
  using assms
proof (induction r arbitrary: p u c s')
  case Eps
  then show ?case by (simp add: toUpperCase_def)
next
  case (Chars w)
  then have "map (canon True) u = map (canon True) w"
    by (simp add: canon_def toUpperCase_def)
  then have "match_chars True w p (u @ s') = Some (prev_of p u, s')"
    unfolding match_chars_Some prev_of_def by blast
  then show ?case by simp
next
  case (Cls cs)
  then obtain x where x: "u = [x]" "\<exists>y \<in> set cs. upper_char x = upper_char y"
    by (cases u) (auto simp: toUpperCase_def)
  then show ?case by (auto simp: list_ex_iff char_eq_def prev_of_def)
next
  case (Seq a b)
  from Seq.prems(2) obtain wa wb where w: "toUpperCase u = wa @ wb" "wa \<in> set (words a)"
    "wb \<in> set (words b)" by auto
  define ua where "ua = take (length wa) u"
  define ub where "ub = drop (length wa) u"
  have u: "u = ua @ ub" by (simp add: ua_def ub_def)
  have "toUpperCase ua = wa" "toUpperCase ub = wb"
    using w(1) unfolding ua_def ub_def toUpperCase_def
    by (metis append_eq_conv_conj take_map, metis append_eq_conv_conj drop_map)
  with w have wa: "toUpperCase ua \<in> set (words a)" and wb: "toUpperCase ub \<in> set (words b)"
    by simp_all
  from Seq.IH(1) [OF _ wa, of p "ub @ s'" c] Seq.prems(1) obtain c1 where
    1: "(prev_of p ua, ub @ s', c1) \<in> set (rmatch True a (p, ua @ ub @ s', c))"
    by auto
  from Seq.IH(2) [OF _ wb, of "prev_of p ua" s' c1] Seq.prems(1) obtain c2 where
    2: "(prev_of (prev_of p ua) ub, s', c2) \<in> set (rmatch True b (prev_of p ua, ub @ s', c1))"
    by auto
  from 1 2 have "(prev_of p u, s', c2) \<in> set (rmatch True (Seq a b) (p, u @ s', c))"
    unfolding u prev_of_append by (simp, blast)
  then show ?case by blast
next
  case (Alt a b)
  from Alt.prems(2) consider "toUpperCase u \<in> set (words a)" | "toUpperCase u \<in> set (words b)"
    by auto
  then show ?case
  proof cases
    case 1
    from Alt.IH(1) [OF _ 1, of p s' c] Alt.prems(1) show ?thesis by auto
  next
    case 2
    from Alt.IH(2) [OF _ 2, of p s' c] Alt.prems(1) show ?thesis by auto
  qed
next
  case (Grp n r)
  from Grp.IH [of u p s' c] Grp.prems obtain c' where
    "(prev_of p u, s', c') \<in> set (rmatch True r (p, u @ s', c))" by auto
  then have "(prev_of p u, s', (n, take (length (u @ s') - length s') (u @ s')) # c')
             \<in> set (rmatch True (Grp n r) (p, u @ s', c))"
    by (simp, force)
  then show ?case by blast
qed simp_all

lemma rmatch_ne_iff:
  "rmatch ic r st \<noteq> [] \<longleftrightarrow> (\<exists>st'. st' \<in> set (rmatch ic r st))"
  by (cases "rmatch ic r st") auto

lemma upper_split:
  assumes "toUpperCase s = a @ b"
  obtains sa sb where "s = sa @ sb" "toUpperCase sa = a" "toUpperCase sb = b"
proof -
  have "s = take (length a) s @ drop (length a) s" by simp
  moreover have "toUpperCase (take (length a) s) = a" "toUpperCase (drop (length a) s) = b"
    using assms unfolding toUpperCase_def
    by (metis append_eq_conv_conj take_map, metis append_eq_conv_conj drop_map)
  ultimately show ?thesis using that by blast
qed

text \<open>A search for a pattern of literals finds one of its words, in upper case.\<close>

lemma test_simple:
  assumes "simple r"
  shows "test (True, r) s \<longleftrightarrow> (\<exists>w \<in> set (words r). sublist w (toUpperCase s))"
proof
  assume "test (True, r) s"
  then obtain pre suf st' where s: "s = pre @ suf"
    and st': "st' \<in> set (rmatch True r (prev_of None pre, suf, []))"
    unfolding test_iff rmatch_ne_iff by auto
  obtain p' s' c' where "st' = (p', s', c')" by (cases st')
  with words_sound [OF assms, of p' s' c' "prev_of None pre" suf "[]"] st'
  obtain u where u: "suf = u @ s'" "toUpperCase u \<in> set (words r)" by auto
  have "sublist (toUpperCase u) (toUpperCase s)"
    unfolding s u(1) by (simp add: sublist_def) blast
  with u(2) show "\<exists>w \<in> set (words r). sublist w (toUpperCase s)" by blast
next
  assume "\<exists>w \<in> set (words r). sublist w (toUpperCase s)"
  then obtain w a b where w: "w \<in> set (words r)" "toUpperCase s = a @ w @ b"
    unfolding sublist_def by blast
  from upper_split [OF w(2)] obtain sa s1 where 1: "s = sa @ s1" "toUpperCase s1 = w @ b"
    by metis
  from upper_split [OF 1(2)] obtain u sb where 2: "s1 = u @ sb" "toUpperCase u = w"
    by metis
  from words_complete [OF assms, of u "prev_of None sa" sb "[]"] w(1) 2(2)
  have "rmatch True r (prev_of None sa, u @ sb, []) \<noteq> []" by auto
  with 1(1) 2(1) show "test (True, r) s" unfolding test_iff by auto
qed

section \<open>The episode matcher\<close>

lemma occurs_before_iff:
  "occurs_before w ok u \<longleftrightarrow> (\<exists>pre post. u = pre @ w @ post \<and> ok post)"
proof
  assume "occurs_before w ok u"
  then obtain n where n: "prefix w (drop n u)" "ok (drop (n + length w) u)"
    unfolding occurs_before_def list_ex_iff by blast
  from n(1) obtain post where post: "drop n u = w @ post" by (auto simp: prefix_def)
  then have "u = take n u @ w @ post" by (metis append_take_drop_id)
  moreover have "drop (n + length w) u = post"
    using post by (metis add.commute append_eq_conv_conj drop_drop)
  ultimately show "\<exists>pre post. u = pre @ w @ post \<and> ok post" using n(2) by metis
next
  assume "\<exists>pre post. u = pre @ w @ post \<and> ok post"
  then obtain pre post where u: "u = pre @ w @ post" "ok post" by blast
  have "length pre \<in> set [0..<Suc (length u)]" unfolding u(1) by simp
  moreover have "prefix w (drop (length pre) u)" unfolding u(1) by simp
  moreover have "ok (drop (length pre + length w) u)" unfolding u(1) using u(2) by simp
  ultimately show "occurs_before w ok u" unfolding occurs_before_def list_ex_iff by blast
qed

lemma matchesSeasonPack_iff:
  "matchesSeasonPack s info \<longleftrightarrow>
     (\<exists>ss \<in> set [padStart2 (dec s), dec s]. \<exists>pre post.
        toUpperCase info = pre @ ''S'' @ ss @ post \<and> no_episode_next post)"
  unfolding matchesSeasonPack_def list_ex_iff occurs_before_iff by simp

lemma dec_upper: "toUpperCase (dec n) = dec n"
  using upper_digits [OF dec_digits] by (simp add: toUpperCase_def)

lemma padStart2_dec_upper: "toUpperCase (padStart2 (dec n)) = padStart2 (dec n)"
  using upper_digits [OF padStart2_digits [OF dec_digits]] by (simp add: toUpperCase_def)

lemma upper_S: "upper_char CHR ''S'' = CHR ''S''" "upper_char CHR ''s'' = CHR ''S''"
  "upper_char CHR ''E'' = CHR ''E''" "upper_char CHR ''e'' = CHR ''E''"
  by (simp_all add: upper_char_def)

lemma test_sePattern: "test (sePattern s e) info \<longleftrightarrow> matchesEpisode s e info"
proof -
  have sim: "simple (snd (sePattern s e))"
    by (simp add: sePattern_def seqs_def)
  have "set (words (snd (sePattern s e))) = set (episodeMarkers s e)"
    by (auto simp: sePattern_def seqs_def episodeMarkers_def dec_upper padStart2_dec_upper upper_S)
  with test_simple [OF sim, of info] show ?thesis
    by (simp add: matchesEpisode_def list_ex_iff sePattern_def)
qed

lemma rmatch_Seq_assoc_ne:
  "rmatch ic (Seq a (Seq b c)) st \<noteq> []
   \<longleftrightarrow> (\<exists>st2 \<in> set (rmatch ic (Seq a b) st). rmatch ic c st2 \<noteq> [])"
  by auto

lemma list_ex_digit: "list_ex (char_eq True x) digit_chars = is_digit x"
proof
  assume "list_ex (char_eq True x) digit_chars"
  then obtain d where d: "is_digit d" "upper_char x = upper_char d"
    by (auto simp: list_ex_iff char_eq_def is_digit_def)
  then have "is_digit (upper_char x)" by (simp add: upper_char_digit)
  then show "is_digit x" by (simp add: is_digit_upper)
next
  assume "is_digit x"
  then have "\<exists>d \<in> set digit_chars. char_eq True x d"
    unfolding is_digit_def char_eq_def by (intro bexI [of _ x]) simp_all
  then show "list_ex (char_eq True x) digit_chars"
    by (simp only: list_ex_iff)
qed

lemma list_ex_Ee: "list_ex (char_eq True x) ''Ee'' = (upper_char x = CHR ''E'')"
  by (auto simp: char_eq_def upper_S)

lemma look_fails:
  "rmatch True (Alt Digit (Grp 2 (Cls ''Ee''))) (p, s, c) = [] \<longleftrightarrow> no_episode_next (toUpperCase s)"
proof (cases s)
  case Nil
  then show ?thesis by (simp add: Digit_def no_episode_next_def)
next
  case (Cons x xs)
  have "rmatch True Digit (p, x # xs, c) = [] \<longleftrightarrow> \<not> is_digit x"
    unfolding Digit_def by (simp add: list_ex_digit)
  moreover have "rmatch True (Grp 2 (Cls ''Ee'')) (p, x # xs, c) = [] \<longleftrightarrow> upper_char x \<noteq> CHR ''E''"
    using list_ex_Ee [of x] by simp
  ultimately show ?thesis
    using Cons by (simp add: no_episode_next_def is_digit_upper)
qed

lemma test_seasonPackPattern: "test (seasonPackPattern s) info \<longleftrightarrow> matchesSeasonPack s info"
proof -
  let ?front = "Seq (Cls ''Ss'') (Grp 1 (Alt (Chars (padStart2 (dec s))) (Chars (dec s))))"
  let ?look = "Alt Digit (Grp 2 (Cls ''Ee''))"
  have body: "snd (seasonPackPattern s) = Seq (Cls ''Ss'')
                (Seq (Grp 1 (Alt (Chars (padStart2 (dec s))) (Chars (dec s)))) (Seq (NegLook ?look) Eps))"
    by (simp add: seasonPackPattern_def seqs_def)
  have sim: "simple ?front" by simp
  have ws: "set (words ?front) = {''S'' @ padStart2 (dec s), ''S'' @ dec s}"
    by (auto simp: dec_upper padStart2_dec_upper upper_S)
  have at: "rmatch True (snd (seasonPackPattern s)) (p, suf, []) \<noteq> []
            \<longleftrightarrow> (\<exists>u s'. suf = u @ s' \<and> toUpperCase u \<in> set (words ?front)
                        \<and> no_episode_next (toUpperCase s'))" (is "?L \<longleftrightarrow> ?R") for p suf
  proof
    assume ?L
    then obtain st2 where st2: "st2 \<in> set (rmatch True ?front (p, suf, []))"
      "rmatch True (Seq (NegLook ?look) Eps) st2 \<noteq> []"
      unfolding body rmatch_Seq_assoc_ne by blast
    obtain p' s' c' where st: "st2 = (p', s', c')" by (cases st2)
    from st2(2) st have "rmatch True ?look (p', s', c') = []"
      by (auto split: if_splits)
    then have nx: "no_episode_next (toUpperCase s')" by (simp only: look_fails)
    from words_sound [OF sim, of p' s' c' p suf "[]"] st2(1) st obtain u where
      "suf = u @ s'" "toUpperCase u \<in> set (words ?front)" by auto
    with nx show ?R by blast
  next
    assume ?R
    then obtain u s' where u: "suf = u @ s'" "toUpperCase u \<in> set (words ?front)"
      "no_episode_next (toUpperCase s')" by blast
    from words_complete [OF sim u(2), of p s' "[]"] obtain c' where
      c': "(prev_of p u, s', c') \<in> set (rmatch True ?front (p, u @ s', []))" by blast
    from u(3) have "rmatch True ?look (prev_of p u, s', c') = []" by (simp only: look_fails)
    then have "rmatch True (Seq (NegLook ?look) Eps) (prev_of p u, s', c') \<noteq> []" by simp
    with c' u(1) show ?L unfolding body rmatch_Seq_assoc_ne by blast
  qed
  show ?thesis
  proof
    assume "test (seasonPackPattern s) info"
    then obtain pre suf where i: "info = pre @ suf"
      "rmatch True (snd (seasonPackPattern s)) (prev_of None pre, suf, []) \<noteq> []"
      unfolding test_iff by (auto simp: seasonPackPattern_def)
    from i(2) obtain u s' where u: "suf = u @ s'" "toUpperCase u \<in> set (words ?front)"
      "no_episode_next (toUpperCase s')" unfolding at by blast
    from u(2) obtain ss where ss: "ss \<in> set [padStart2 (dec s), dec s]" "toUpperCase u = ''S'' @ ss"
      unfolding ws by auto
    have "toUpperCase info = toUpperCase pre @ ''S'' @ ss @ toUpperCase s'"
      unfolding i(1) u(1) using ss(2) by simp
    with ss(1) u(3) show "matchesSeasonPack s info"
      unfolding matchesSeasonPack_iff by blast
  next
    assume "matchesSeasonPack s info"
    then obtain ss pre post where m: "ss \<in> set [padStart2 (dec s), dec s]"
      "toUpperCase info = pre @ (''S'' @ ss) @ post" "no_episode_next post"
      unfolding matchesSeasonPack_iff by auto
    from upper_split [OF m(2)] obtain sa s1 where 1: "info = sa @ s1"
      "toUpperCase s1 = (''S'' @ ss) @ post" by metis
    from upper_split [OF 1(2)] obtain u sb where 2: "s1 = u @ sb" "toUpperCase u = ''S'' @ ss"
      "toUpperCase sb = post" by metis
    from m(1) 2(2) have "toUpperCase u \<in> set (words ?front)" unfolding ws by auto
    with 2 m(3) have "rmatch True (snd (seasonPackPattern s)) (prev_of None sa, s1, []) \<noteq> []"
      unfolding at by blast
    with 1(1) show "test (seasonPackPattern s) info"
      unfolding test_iff by (auto simp: seasonPackPattern_def)
  qed
qed

text \<open>
  The check of the callback on the episode signal that it is given. For a series request
  whose season and episode are not 0, a record is rejected exactly when its episode signal
  is there, is not empty, contains neither \<open>S<season>E<episode>\<close>, with or without leading
  zeros, and contains no \<open>S<season>\<close> that is followed by neither a digit nor an E.
\<close>

lemma episode_check:
  assumes "s \<noteq> 0" and "e \<noteq> 0"
  shows "streamOf Series (Some s) (Some e) torrent pm = None
         \<longleftrightarrow> (\<exists>info. episodeInfo pm = Some info \<and> info \<noteq> []
                 \<and> \<not> matchesEpisode s e info \<and> \<not> matchesSeasonPack s info)"
  using assms
  by (cases "episodeInfo pm")
     (auto simp: streamOf_def rejectedByEpisode_def Let_def truthy_str_def str_of_def
                 test_sePattern test_seasonPackPattern)

text \<open>An episode signal that is made of digits matches neither pattern: both ask for an S.\<close>

lemma digits_match_nothing:
  assumes "\<forall>c \<in> set info. is_digit c"
  shows "\<not> matchesEpisode s e info" and "\<not> matchesSeasonPack s info"
proof -
  have up: "toUpperCase info = info"
    unfolding toUpperCase_def using assms by (rule upper_digits)
  have "\<not> is_digit CHR ''S''" by (simp add: is_digit_def digit_chars_def)
  with assms have nS: "CHR ''S'' \<notin> set info" by blast
  show "\<not> matchesEpisode s e info"
  proof
    assume "matchesEpisode s e info"
    then obtain w where w: "w \<in> set (episodeMarkers s e)" "sublist w info"
      unfolding matchesEpisode_def list_ex_iff up by blast
    from w(1) obtain r where "w = CHR ''S'' # r" unfolding episodeMarkers_def by auto
    then have "CHR ''S'' \<in> set w" by simp
    with set_mono_sublist [OF w(2)] nS show False by blast
  qed
  show "\<not> matchesSeasonPack s info"
  proof
    assume "matchesSeasonPack s info"
    then obtain ss pre post where "info = pre @ ''S'' @ ss @ post"
      unfolding matchesSeasonPack_iff up by blast
    then have "CHR ''S'' \<in> set info" by simp
    with nS show False by blast
  qed
qed

lemma digits_rejected:
  assumes "s \<noteq> 0" and "e \<noteq> 0" and "episodeInfo pm = Some info" and "info \<noteq> []"
    and "\<forall>c \<in> set info. is_digit c"
  shows "streamOf Series (Some s) (Some e) torrent pm = None"
  unfolding episode_check [OF assms(1,2)]
  using assms(3,4) digits_match_nothing [OF assms(5)] by blast

text \<open>
  The episode signal that \<open>parseTorrentTitle\<close> stores is \<open>match[1] || match[0]\<close> of the
  first match of \<open>SEASON_EPISODE\<close>, in upper case: the first group when it took part in the
  match, which for \<open>S01E02\<close> is the digits of the season.
\<close>

lemma episodeInfo_assign_field:
  "f \<noteq> F_episodeInfo \<Longrightarrow> episodeInfo (assign_field f v m) = episodeInfo m"
  by (cases "(f, v, m)" rule: assign_field.cases) simp_all

lemma episodeInfo_extractFirstMatch:
  "f \<noteq> F_episodeInfo \<Longrightarrow> episodeInfo (extractFirstMatch regex f tr w m) = episodeInfo m"
  by (simp add: extractFirstMatch_def Let_def episodeInfo_assign_field split: option.splits)

lemma episodeInfo_extractAllMatches:
  "f \<noteq> F_episodeInfo \<Longrightarrow> episodeInfo (extractAllMatches regex f u tr w m) = episodeInfo m"
  by (simp add: extractAllMatches_def Let_def episodeInfo_assign_field)

lemma episodeInfo_steps:
  "episodeInfo (step1_year y w m) = episodeInfo m"
  "episodeInfo (step3_resolution w m) = episodeInfo m"
  "episodeInfo (step4_qualitySource w m) = episodeInfo m"
  "episodeInfo (step5_videoCodec w m) = episodeInfo m"
  "episodeInfo (step6_audioCodec w m) = episodeInfo m"
  "episodeInfo (step7_hdr_3d w m) = episodeInfo m"
  "episodeInfo (step8_languages w m) = episodeInfo m"
  "episodeInfo (step9_releaseGroup w m) = episodeInfo m"
  "episodeInfo (step10_size w m) = episodeInfo m"
  "episodeInfo (step11_cleanedTitle w st m) = episodeInfo m"
  "episodeInfo (step12_year st m) = episodeInfo m"
  by (simp_all add: step1_year_def step3_resolution_def
        step4_qualitySource_def step5_videoCodec_def step6_audioCodec_def step7_hdr_3d_def
        step8_languages_def step9_releaseGroup_def step10_size_def step11_cleanedTitle_def
        step12_year_def Let_def episodeInfo_extractFirstMatch episodeInfo_extractAllMatches
        split: option.splits audio.splits)

lemma episodeInfo_parseTorrentTitle:
  "episodeInfo (parseTorrentTitle ttl st y)
   = (case exec SEASON_EPISODE ttl of
        None \<Rightarrow> None
      | Some m \<Rightarrow> Some (toUpperCase (group1_or_text m)))"
  by (simp add: parseTorrentTitle_def episodeInfo_steps step2_episodeInfo_def
        extractFirstMatch_def newMetadata_def truthy_str_def Let_def split: option.splits)

lemma episodeInfo_S01E02:
  "episodeInfo (parseTorrentTitle ''Show.Name.S01E02.720p.WEB-DL.AAC'' st y) = Some ''01''"
proof -
  have "map_option (\<lambda>m. toUpperCase (group1_or_text m))
          (exec SEASON_EPISODE ''Show.Name.S01E02.720p.WEB-DL.AAC'') = Some ''01''"
    by code_simp
  then show ?thesis
    unfolding episodeInfo_parseTorrentTitle by (auto split: option.splits)
qed

text \<open>
  C5 does not hold of the code. The claim accepts a record whose episode signal matches
  \<open>S<season>E<episode>\<close>, and the spec has the title \<open>Show.Name.S01E02.720p.WEB-DL.AAC\<close>
  accepted for season 1, episode 2. The extractor stores for this title the episode signal
  \<open>01\<close>, the season digits of \<open>S01E02\<close>, which matches neither pattern of the check, and
  the callback rejects the record, whatever the search title, the years and the rest of
  the record are.
\<close>

theorem C5_episode_rejected:
  "episodeInfo (parseTorrentTitle (torrent_title torrentS) st y) = Some ''01''
   \<and> toStream Series (Some 1) (Some 2) standardizedTitle standardizedYear currentYear torrentS
       = None"
proof -
  have t: "torrent_title torrentS = ''Show.Name.S01E02.720p.WEB-DL.AAC''"
    by (simp add: torrentS_def)
  have d: "\<forall>c \<in> set ''01''. is_digit c" by (simp add: is_digit_def digit_chars_def)
  have "toStream Series (Some 1) (Some 2) standardizedTitle standardizedYear currentYear torrentS
        = None"
    unfolding toStream_def Let_def t
    by (rule digits_rejected [OF _ _ episodeInfo_S01E02 _ d]) simp_all
  with episodeInfo_S01E02 t show ?thesis by simp
qed

theorem C5_witness:
  "episodeInfo (parseTorrentTitle ''Show.Name.S01E02.720p.WEB-DL.AAC'' (Some ''Show Name'') None)
     = Some ''01''
   \<and> toStream Series (Some 1) (Some 2) ''Show Name'' None 2026 torrentS = None"
  using C5_episode_rejected [of "Some ''Show Name''" None "''Show Name''" None 2026]
  by (simp add: torrentS_def)

section \<open>The first resolution\<close>

lemma plain_caps:
  assumes "plain r" and "(p', s', c') \<in> set (rmatch ic r (p, s, c))"
  shows "c' = c"
  using assms
proof (induction r arbitrary: p s c p' s' c')
  case (Chars w)
  then show ?case by (cases "match_chars ic w p s") auto
next
  case (Cls cs)
  then show ?case by (cases s) (auto split: if_splits)
next
  case (Seq a b)
  from Seq.prems(2) obtain p1 s1 c1 where
    1: "(p1, s1, c1) \<in> set (rmatch ic a (p, s, c))"
    and 2: "(p', s', c') \<in> set (rmatch ic b (p1, s1, c1))"
    by auto
  from Seq.IH(1) [OF _ 1] Seq.IH(2) [OF _ 2] Seq.prems(1) show ?case by simp
next
  case (Alt a b)
  then show ?case by fastforce
qed simp_all

lemma rmatch_Seq_mem:
  "st' \<in> set (rmatch ic (Seq a b) st)
   \<longleftrightarrow> (\<exists>st1 \<in> set (rmatch ic a st). st' \<in> set (rmatch ic b st1))"
  by auto

lemma rmatch_Grp_mem:
  "(p', s', c') \<in> set (rmatch ic (Grp n r) (p, s, c))
   \<longleftrightarrow> (\<exists>c0. (p', s', c0) \<in> set (rmatch ic r (p, s, c))
             \<and> c' = (n, take (length s - length s') s) # c0)"
  by (simp, force)

lemma rmatch_WordB_mem:
  "st' \<in> set (rmatch ic WordB (p, s, c)) \<longleftrightarrow> at_word_boundary p s \<and> st' = (p, s, c)"
  by auto

lemma rmatch_Eps_mem: "st' \<in> set (rmatch ic Eps st) \<longleftrightarrow> st' = st"
  by simp

lemma resolution_alts_props:
  "plain resolution_alts" "simple resolution_alts"
  "words resolution_alts = RESOLUTION_TOKENS"
  by (simp_all add: resolution_alts_def alts_def RESOLUTION_TOKENS_def upper_char_def)

lemma RESOLUTION_body:
  "snd RESOLUTION = Seq WordB (Seq (Grp 1 resolution_alts) (Seq WordB Eps))" "fst RESOLUTION = True"
  by (simp_all add: RESOLUTION_def seqs_def resolution_alts_def)

lemma tokens_prefix_free:
  "a \<in> set RESOLUTION_TOKENS \<Longrightarrow> b \<in> set RESOLUTION_TOKENS \<Longrightarrow> prefix a b \<Longrightarrow> a = b"
  unfolding RESOLUTION_TOKENS_def by (elim disjE | simp)+

lemma tokens_nonempty: "a \<in> set RESOLUTION_TOKENS \<Longrightarrow> a \<noteq> []"
  unfolding RESOLUTION_TOKENS_def by auto

text \<open>What \<open>RESOLUTION\<close> matches at a position.\<close>

lemma RESOLUTION_results:
  "st' \<in> set (rmatch True (snd RESOLUTION) (p, s, []))
   \<longleftrightarrow> (\<exists>u s'. s = u @ s' \<and> toUpperCase u \<in> set RESOLUTION_TOKENS
               \<and> at_word_boundary p s \<and> at_word_boundary (prev_of p u) s'
               \<and> st' = (prev_of p u, s', [(1, u)]))" (is "?L \<longleftrightarrow> ?R")
proof
  assume ?L
  then obtain st0 st1 where st0: "st0 \<in> set (rmatch True WordB (p, s, []))"
    and st1: "st1 \<in> set (rmatch True (Grp 1 resolution_alts) st0)"
    and st': "st' \<in> set (rmatch True (Seq WordB Eps) st1)"
    unfolding RESOLUTION_body rmatch_Seq_mem by blast
  from st0 have b1: "at_word_boundary p s" and z: "st0 = (p, s, [])"
    unfolding rmatch_WordB_mem by simp_all
  obtain p1 s1 c1 where f: "st1 = (p1, s1, c1)" by (cases st1)
  from st' f have b2: "at_word_boundary p1 s1" and e: "st' = st1"
    unfolding rmatch_Seq_mem rmatch_WordB_mem rmatch_Eps_mem by auto
  from st1 f z have "(p1, s1, c1) \<in> set (rmatch True (Grp 1 resolution_alts) (p, s, []))"
    by simp
  then obtain c0 where c0: "(p1, s1, c0) \<in> set (rmatch True resolution_alts (p, s, []))"
    and c1: "c1 = (1, take (length s - length s1) s) # c0"
    unfolding rmatch_Grp_mem by blast
  from plain_caps [OF resolution_alts_props(1) c0] have "c0 = []" .
  from words_sound [OF resolution_alts_props(2) c0] obtain u where
    u: "s = u @ s1" "toUpperCase u \<in> set RESOLUTION_TOKENS" "p1 = prev_of p u"
    unfolding resolution_alts_props(3) by blast
  from u(1) have "take (length s - length s1) s = u" by simp
  with c1 \<open>c0 = []\<close> have "c1 = [(1, u)]" by simp
  with u b1 b2 e f show ?R by blast
next
  assume ?R
  then obtain u s' where u: "s = u @ s'" "toUpperCase u \<in> set RESOLUTION_TOKENS"
    "at_word_boundary p s" "at_word_boundary (prev_of p u) s'"
    "st' = (prev_of p u, s', [(1, u)])" by blast
  from words_complete [OF resolution_alts_props(2), of u p s' "[]"] u(2) obtain c0 where
    c0: "(prev_of p u, s', c0) \<in> set (rmatch True resolution_alts (p, u @ s', []))"
    unfolding resolution_alts_props(3) by blast
  from plain_caps [OF resolution_alts_props(1) c0] have z: "c0 = []" .
  have "take (length (u @ s') - length s') (u @ s') = u" by simp
  with c0 z have g: "(prev_of p u, s', [(1, u)])
                     \<in> set (rmatch True (Grp 1 resolution_alts) (p, u @ s', []))"
    unfolding rmatch_Grp_mem by simp
  have w: "(p, s, []) \<in> set (rmatch True WordB (p, s, []))"
    using u(3) unfolding rmatch_WordB_mem by simp
  have t: "(prev_of p u, s', [(1, u)])
           \<in> set (rmatch True (Seq WordB Eps) (prev_of p u, s', [(1, u)]))"
    using u(4) unfolding rmatch_Seq_mem rmatch_WordB_mem rmatch_Eps_mem by simp
  from w g t u(1,5) show ?L
    unfolding RESOLUTION_body rmatch_Seq_mem by blast
qed

lemma prev_of_nonempty: "u \<noteq> [] \<Longrightarrow> prev_of p u = prev_of q u"
  by (simp add: prev_of_def)

lemma token_unique:
  assumes "toUpperCase u \<in> set RESOLUTION_TOKENS" and "toUpperCase tok \<in> set RESOLUTION_TOKENS"
    and "u @ s' = tok @ post"
  shows "u = tok"
proof -
  have "toUpperCase u @ toUpperCase s' = toUpperCase tok @ toUpperCase post"
    using assms(3) by (metis toUpperCase_simps(3))
  then have "prefix (toUpperCase u) (toUpperCase tok) \<or> prefix (toUpperCase tok) (toUpperCase u)"
    by (metis prefixI prefix_same_cases)
  with assms(1,2) have "toUpperCase u = toUpperCase tok"
    using tokens_prefix_free by metis
  then have "length u = length tok"
    by (metis length_map toUpperCase_def)
  with assms(3) show ?thesis by (metis append_eq_append_conv)
qed

lemma exec_RESOLUTION_leftmost:
  assumes "resolutionTokenAt pre tok post"
    and "\<forall>pre' tok' post'. pre' @ tok' @ post' = pre @ tok @ post
           \<and> resolutionTokenAt pre' tok' post' \<longrightarrow> length pre \<le> length pre'"
  shows "\<exists>m. exec RESOLUTION (pre @ tok @ post) = Some m \<and> group1_or_text m = tok"
proof -
  let ?p = "prev_of None pre"
  from assms(1) have tk: "toUpperCase tok \<in> set RESOLUTION_TOKENS"
    and b1: "at_word_boundary ?p (tok @ post)"
    and b2: "at_word_boundary (prev_of None tok) post"
    unfolding resolutionTokenAt_def by simp_all
  from tk have ne: "tok \<noteq> []" using tokens_nonempty by fastforce
  have b2': "at_word_boundary (prev_of ?p tok) post"
    using b2 prev_of_nonempty [OF ne, of ?p None] by simp
  have "(prev_of ?p tok, post, [(1, tok)]) \<in> set (rmatch True (snd RESOLUTION) (?p, tok @ post, []))"
    unfolding RESOLUTION_results using tk b1 b2' by blast
  then obtain st0 sts where hd: "rmatch True (snd RESOLUTION) (?p, tok @ post, []) = st0 # sts"
    by (cases "rmatch True (snd RESOLUTION) (?p, tok @ post, [])") auto
  then have "st0 \<in> set (rmatch True (snd RESOLUTION) (?p, tok @ post, []))" by simp
  then obtain u s' where u: "tok @ post = u @ s'" "toUpperCase u \<in> set RESOLUTION_TOKENS"
    "st0 = (prev_of ?p u, s', [(1, u)])"
    unfolding RESOLUTION_results by blast
  from token_unique [OF u(2) tk u(1) [symmetric]] have ut: "u = tok" .
  with u(1) have "s' = post" by simp
  with u(3) ut hd have hd': "rmatch (fst RESOLUTION) (snd RESOLUTION) (?p, tok @ post, [])
                             = (prev_of ?p tok, post, [(1, tok)]) # sts"
    by (simp add: RESOLUTION_body(2))
  have early: "rmatch (fst RESOLUTION) (snd RESOLUTION) (prev_of None pre1, pre2 @ tok @ post, []) = []"
    if sp: "pre = pre1 @ pre2" "pre2 \<noteq> []" for pre1 pre2
  proof (rule ccontr)
    assume "rmatch (fst RESOLUTION) (snd RESOLUTION) (prev_of None pre1, pre2 @ tok @ post, []) \<noteq> []"
    then obtain st' where
      "st' \<in> set (rmatch True (snd RESOLUTION) (prev_of None pre1, pre2 @ tok @ post, []))"
      unfolding rmatch_ne_iff RESOLUTION_body(2) by blast
    then obtain u' s'' where u': "pre2 @ tok @ post = u' @ s''"
      "toUpperCase u' \<in> set RESOLUTION_TOKENS"
      "at_word_boundary (prev_of None pre1) (pre2 @ tok @ post)"
      "at_word_boundary (prev_of (prev_of None pre1) u') s''"
      unfolding RESOLUTION_results by blast
    from u'(2) have "u' \<noteq> []" using tokens_nonempty by fastforce
    from prev_of_nonempty [OF this, of "prev_of None pre1" None] u'(4)
    have "at_word_boundary (prev_of None u') s''" by simp
    with u' have "resolutionTokenAt pre1 u' s''"
      unfolding resolutionTokenAt_def by simp
    moreover have "pre1 @ u' @ s'' = pre @ tok @ post" using sp(1) u'(1) by simp
    ultimately have "length pre \<le> length pre1" using assms(2) by blast
    with sp show False by simp
  qed
  have "found_at RESOLUTION None pre (tok @ post)
          \<lparr>m_before = pre, m_text = take (length (tok @ post) - length post) (tok @ post),
           m_groups = [(1, tok)], m_prev = prev_of ?p tok, m_rest = post\<rparr>"
    unfolding found_at_def using hd' early by blast
  from search_found [OF this] ne show ?thesis
    by (simp add: exec_def group1_or_text_def capture_def truthy_str_def str_of_def)
qed

lemma resolution_assign_field:
  "f \<noteq> F_resolution \<Longrightarrow> resolution (assign_field f v m) = resolution m"
  by (cases "(f, v, m)" rule: assign_field.cases) simp_all

lemma resolution_extractFirstMatch:
  "f \<noteq> F_resolution \<Longrightarrow> resolution (extractFirstMatch regex f tr w m) = resolution m"
  by (simp add: extractFirstMatch_def Let_def resolution_assign_field split: option.splits)

lemma resolution_extractAllMatches:
  "f \<noteq> F_resolution \<Longrightarrow> resolution (extractAllMatches regex f u tr w m) = resolution m"
  by (simp add: extractAllMatches_def Let_def resolution_assign_field)

lemma resolution_steps:
  "resolution (step1_year y w m) = resolution m"
  "resolution (step2_episodeInfo w m) = resolution m"
  "resolution (step4_qualitySource w m) = resolution m"
  "resolution (step5_videoCodec w m) = resolution m"
  "resolution (step6_audioCodec w m) = resolution m"
  "resolution (step7_hdr_3d w m) = resolution m"
  "resolution (step8_languages w m) = resolution m"
  "resolution (step9_releaseGroup w m) = resolution m"
  "resolution (step10_size w m) = resolution m"
  "resolution (step11_cleanedTitle w st m) = resolution m"
  "resolution (step12_year st m) = resolution m"
  by (simp_all add: step1_year_def step2_episodeInfo_def
        step4_qualitySource_def step5_videoCodec_def step6_audioCodec_def step7_hdr_3d_def
        step8_languages_def step9_releaseGroup_def step10_size_def step11_cleanedTitle_def
        step12_year_def Let_def resolution_extractFirstMatch resolution_extractAllMatches
        split: option.splits audio.splits)

lemma resolution_parseTorrentTitle:
  "resolution (parseTorrentTitle ttl st y)
   = (case exec RESOLUTION ttl of
        None \<Rightarrow> None
      | Some m \<Rightarrow> Some (toUpperCase (group1_or_text m)))"
  by (simp add: parseTorrentTitle_def resolution_steps step3_resolution_def
        extractFirstMatch_def newMetadata_def truthy_str_def Let_def split: option.splits)

lemma extractFirstMatch_keeps:
  "field_truthy fld md \<Longrightarrow> extractFirstMatch regex fld tr w md = md"
  by (simp add: extractFirstMatch_def Let_def split: option.splits)

lemma extractAllMatches_keeps:
  "field_truthy fld md \<Longrightarrow> \<not> field_length0 fld md
   \<Longrightarrow> extractAllMatches regex fld u tr w md = md"
  by (simp add: extractAllMatches_def Let_def)

lemma leftmost_from_exec:
  assumes "exec RESOLUTION (pre @ suf) = Some m" and "m_before m = pre"
  shows "\<forall>pre' tok' post'. pre' @ tok' @ post' = pre @ suf
           \<and> resolutionTokenAt pre' tok' post' \<longrightarrow> length pre \<le> length pre'"
proof (intro allI impI, rule ccontr)
  fix pre' tok' post'
  assume a: "pre' @ tok' @ post' = pre @ suf \<and> resolutionTokenAt pre' tok' post'"
    and l: "\<not> length pre \<le> length pre'"
  from search_Some_found [OF assms(1) [unfolded exec_def]] obtain pre0 suf0 where
    f: "pre @ suf = pre0 @ suf0" "found_at RESOLUTION None pre0 suf0 m" by blast
  from f(2) have "m_before m = pre0" unfolding found_at_def by auto
  with assms(2) f(1) have p0: "pre0 = pre" "suf0 = suf" by simp_all
  from f(2) have none: "\<And>pre1 pre2. pre = pre1 @ pre2 \<Longrightarrow> pre2 \<noteq> []
      \<Longrightarrow> rmatch (fst RESOLUTION) (snd RESOLUTION) (prev_of None pre1, pre2 @ suf, []) = []"
    unfolding found_at_def p0 by blast
  define pre2 where "pre2 = drop (length pre') pre"
  from a have "take (length pre') (pre @ suf) = pre'" by (metis append_eq_conv_conj)
  with l have "take (length pre') pre = pre'" by simp
  then have sp: "pre = pre' @ pre2" unfolding pre2_def by (metis append_take_drop_id)
  from l have ne: "pre2 \<noteq> []" unfolding pre2_def by simp
  from a sp have eq: "pre2 @ suf = tok' @ post'" by simp
  from none [OF sp ne] eq have e: "rmatch (fst RESOLUTION) (snd RESOLUTION)
                             (prev_of None pre', tok' @ post', []) = []"
    by simp
  from a have tk: "toUpperCase tok' \<in> set RESOLUTION_TOKENS"
    and b1: "at_word_boundary (prev_of None pre') (tok' @ post')"
    and b2: "at_word_boundary (prev_of None tok') post'"
    unfolding resolutionTokenAt_def by simp_all
  from tk have "tok' \<noteq> []" using tokens_nonempty by fastforce
  from prev_of_nonempty [OF this, of "prev_of None pre'" None] b2
  have "at_word_boundary (prev_of (prev_of None pre') tok') post'" by simp
  with tk b1 have "(prev_of (prev_of None pre') tok', post', [(1, tok')])
                   \<in> set (rmatch True (snd RESOLUTION) (prev_of None pre', tok' @ post', []))"
    unfolding RESOLUTION_results by blast
  with e show False by (simp add: RESOLUTION_body(2))
qed

text \<open>
  C7. When a title has resolution tokens, \<open>parseTorrentTitle\<close> stores the first of them
  in the order of the text, in upper case. \<open>extractFirstMatch\<close> leaves the metadata as it
  is when the field is already set, and so does \<open>extractAllMatches\<close> when the field is set
  and is not an empty list.
\<close>

theorem C7_first_match_wins:
  "(resolutionTokenAt pre tok post
      \<and> (\<forall>pre' tok' post'. pre' @ tok' @ post' = pre @ tok @ post
             \<and> resolutionTokenAt pre' tok' post' \<longrightarrow> length pre \<le> length pre')
    \<longrightarrow> resolution (parseTorrentTitle (pre @ tok @ post) st y) = Some (toUpperCase tok))
   \<and> (field_truthy fld md \<longrightarrow> extractFirstMatch regex fld tr w md = md)
   \<and> (field_truthy fld md \<and> \<not> field_length0 fld md
        \<longrightarrow> extractAllMatches regex fld u tr' w md = md)"
proof (intro conjI impI)
  assume a: "resolutionTokenAt pre tok post
      \<and> (\<forall>pre' tok' post'. pre' @ tok' @ post' = pre @ tok @ post
             \<and> resolutionTokenAt pre' tok' post' \<longrightarrow> length pre \<le> length pre')"
  then obtain m where "exec RESOLUTION (pre @ tok @ post) = Some m" "group1_or_text m = tok"
    using exec_RESOLUTION_leftmost [of pre tok post] by blast
  then show "resolution (parseTorrentTitle (pre @ tok @ post) st y) = Some (toUpperCase tok)"
    by (simp add: resolution_parseTorrentTitle)
qed (simp_all add: extractFirstMatch_keeps extractAllMatches_keeps)

theorem C7_witness:
  "resolutionTokenAt ''Movie.'' ''720p'' ''.1080p.mkv''
   \<and> resolution (parseTorrentTitle ''Movie.720p.1080p.mkv'' None None) = Some ''720P''
   \<and> field_truthy F_resolution ((newMetadata ''x'')\<lparr>resolution := Some ''720P''\<rparr>)
   \<and> extractFirstMatch RESOLUTION F_resolution None ''Movie.1080p''
        ((newMetadata ''x'')\<lparr>resolution := Some ''720P''\<rparr>)
       = (newMetadata ''x'')\<lparr>resolution := Some ''720P''\<rparr>
   \<and> field_truthy F_audioCodec ((newMetadata ''x'')\<lparr>audioCodec := Some (AudioStr ''AAC'')\<rparr>)
   \<and> \<not> field_length0 F_audioCodec ((newMetadata ''x'')\<lparr>audioCodec := Some (AudioStr ''AAC'')\<rparr>)
   \<and> extractAllMatches AUDIO_CODEC F_audioCodec True None ''Movie.DTS''
        ((newMetadata ''x'')\<lparr>audioCodec := Some (AudioStr ''AAC'')\<rparr>)
       = (newMetadata ''x'')\<lparr>audioCodec := Some (AudioStr ''AAC'')\<rparr>"
proof -
  let ?md = "(newMetadata ''x'')\<lparr>resolution := Some ''720P''\<rparr>"
  let ?ma = "(newMetadata ''x'')\<lparr>audioCodec := Some (AudioStr ''AAC'')\<rparr>"
  have t: "resolutionTokenAt ''Movie.'' ''720p'' ''.1080p.mkv''"
    unfolding resolutionTokenAt_def by code_simp
  have "map_option m_before (exec RESOLUTION ''Movie.720p.1080p.mkv'') = Some ''Movie.''"
    by code_simp
  then obtain m where m: "exec RESOLUTION (''Movie.'' @ ''720p.1080p.mkv'') = Some m"
    "m_before m = ''Movie.''" by auto
  from leftmost_from_exec [OF m]
  have first: "\<forall>pre' tok' post'. pre' @ tok' @ post' = ''Movie.'' @ ''720p'' @ ''.1080p.mkv''
           \<and> resolutionTokenAt pre' tok' post' \<longrightarrow> length ''Movie.'' \<le> length pre'"
    by simp
  have f1: "field_truthy F_resolution ?md" by (simp add: truthy_str_def)
  have f2: "field_truthy F_audioCodec ?ma" "\<not> field_length0 F_audioCodec ?ma" by simp_all
  have up: "toUpperCase ''720p'' = ''720P''" by (simp add: upper_char_def)
  from C7_first_match_wins [of "''Movie.''" "''720p''" "''.1080p.mkv''" None None
         F_resolution ?md RESOLUTION None "''Movie.1080p''"] t first f1 up
  have a: "resolution (parseTorrentTitle ''Movie.720p.1080p.mkv'' None None) = Some ''720P''"
    and b: "extractFirstMatch RESOLUTION F_resolution None ''Movie.1080p'' ?md = ?md"
    by simp_all
  from C7_first_match_wins [of "''Movie.''" "''720p''" "''.1080p.mkv''" None None
         F_audioCodec ?ma AUDIO_CODEC None "''Movie.DTS''" True None] f2
  have c: "extractAllMatches AUDIO_CODEC F_audioCodec True None ''Movie.DTS'' ?ma = ?ma"
    by blast
  from t a f1 b f2 c show ?thesis by blast
qed

section \<open>Sizes\<close>

lemma first_Seq:
  "first_is (rmatch ic a st) x \<Longrightarrow> first_is (rmatch ic b x) y \<Longrightarrow> first_is (rmatch ic (Seq a b) st) y"
  unfolding first_is_def by auto

lemma first_Alt1: "first_is (rmatch ic a st) x \<Longrightarrow> first_is (rmatch ic (Alt a b) st) x"
  unfolding first_is_def by auto

lemma first_Alt2:
  "rmatch ic a st = [] \<Longrightarrow> first_is (rmatch ic b st) x \<Longrightarrow> first_is (rmatch ic (Alt a b) st) x"
  unfolding first_is_def by auto

lemma first_Grp:
  "first_is (rmatch ic r (p, s, c)) (p', s', c')
   \<Longrightarrow> first_is (rmatch ic (Grp n r) (p, s, c)) (p', s', (n, take (length s - length s') s) # c')"
  unfolding first_is_def by auto

lemma first_Eps: "first_is (rmatch ic Eps st) st"
  unfolding first_is_def by simp

text \<open>A greedy star over a test of one character takes the whole run.\<close>

lemma first_star_iter:
  assumes f: "\<And>p x xs c. f (p, x # xs, c) = (if P x then [(Some x, xs, c)] else [])"
    "\<And>p c. f (p, [], c) = []"
    and "\<forall>x \<in> set ws. P x" and "case s' of [] \<Rightarrow> True | x # _ \<Rightarrow> \<not> P x"
    and "length ws \<le> k"
  shows "first_is (star_iter f k (p, ws @ s', c)) (prev_of p ws, s', c)"
  using assms(3,5)
proof (induction ws arbitrary: p k)
  case Nil
  have "f (p, s', c) = []" using assms(4) f by (cases s') auto
  then show ?case by (cases k) (simp_all add: first_is_def)
next
  case (Cons w ws)
  then obtain k' where k': "k = Suc k'" "length ws \<le> k'" by (cases k) auto
  from Cons.prems have "P w" "\<forall>x \<in> set ws. P x" by simp_all
  from Cons.IH [OF this(2) k'(2), of "Some w"]
  obtain ys where "star_iter f k' (Some w, ws @ s', c) = (prev_of (Some w) ws, s', c) # ys"
    unfolding first_is_def by blast
  then show ?case
    using \<open>P w\<close> k'(1) f(1) by (simp add: first_is_def prev_of_Cons)
qed

lemma first_Star_Space:
  assumes "\<forall>x \<in> set ws. is_space x" and "case s' of [] \<Rightarrow> True | x # _ \<Rightarrow> \<not> is_space x"
  shows "first_is (rmatch ic (Star Space) (p, ws @ s', c)) (prev_of p ws, s', c)"
proof -
  have "first_is (star_iter (\<lambda>st'. rmatch ic Space st') (length (ws @ s')) (p, ws @ s', c))
          (prev_of p ws, s', c)"
    by (rule first_star_iter [where P = is_space]) (use assms in simp_all)
  then show ?thesis by simp
qed

lemma first_Star_Digit:
  assumes "\<forall>x \<in> set ds. is_digit x" and "case s' of [] \<Rightarrow> True | x # _ \<Rightarrow> \<not> is_digit x"
  shows "first_is (rmatch True (Star Digit) (p, ds @ s', c)) (prev_of p ds, s', c)"
proof -
  have "first_is (star_iter (\<lambda>st'. rmatch True Digit st') (length (ds @ s')) (p, ds @ s', c))
          (prev_of p ds, s', c)"
    by (rule first_star_iter [where P = is_digit])
       (use assms in \<open>simp_all add: Digit_def list_ex_digit\<close>)
  then show ?thesis by simp
qed

lemma first_Plus_Digit:
  assumes "ds \<noteq> []" and "\<forall>x \<in> set ds. is_digit x"
    and "case s' of [] \<Rightarrow> True | x # _ \<Rightarrow> \<not> is_digit x"
  shows "first_is (rmatch True (Plus Digit) (p, ds @ s', c)) (prev_of p ds, s', c)"
proof -
  from assms(1) obtain d ds' where ds: "ds = d # ds'" by (cases ds) auto
  with assms(2) have d: "is_digit d" and ds': "\<forall>x \<in> set ds'. is_digit x" by simp_all
  have 1: "first_is (rmatch True Digit (p, ds @ s', c)) (Some d, ds' @ s', c)"
    using d ds by (simp add: first_is_def Digit_def list_ex_digit)
  from first_Seq [OF 1 first_Star_Digit [OF ds' assms(3)]] show ?thesis
    by (simp add: Plus_def ds prev_of_Cons)
qed

lemma size_units_props:
  "plain size_units" "simple size_units" "words size_units = SIZE_UNITS"
  by (simp_all add: size_units_def alts_def SIZE_UNITS_def upper_char_def)

lemma units_prefix_free:
  "a \<in> set SIZE_UNITS \<Longrightarrow> b \<in> set SIZE_UNITS \<Longrightarrow> prefix a b \<Longrightarrow> a = b"
  unfolding SIZE_UNITS_def by (elim disjE | simp)+

lemma unit_first_letter:
  assumes "toUpperCase u \<in> set SIZE_UNITS"
  shows "\<exists>x xs. u = x # xs \<and> \<not> is_digit x \<and> \<not> is_space x \<and> x \<noteq> CHR ''.''"
proof -
  from assms obtain x xs where u: "u = x # xs"
    by (cases u) (auto simp: SIZE_UNITS_def)
  with assms have "upper_char x \<in> set ''TGMK''"
    by (auto simp: SIZE_UNITS_def)
  then have up: "\<not> is_digit (upper_char x)" "\<not> is_space (upper_char x)" "upper_char x \<noteq> CHR ''.''"
    by (auto simp: is_digit_def digit_chars_def is_space_def)
  have "\<not> is_digit x" using up(1) by (simp add: is_digit_upper)
  moreover have "\<not> is_space x"
  proof
    assume "is_space x"
    then have "upper_char x = x"
      unfolding is_space_def by (elim disjE | simp add: upper_char_def)+
    with up(2) \<open>is_space x\<close> show False by simp
  qed
  moreover have "x \<noteq> CHR ''.''"
  proof
    assume "x = CHR ''.''"
    then have "upper_char x = CHR ''.''" by (simp add: upper_char_def)
    with up(3) show False by simp
  qed
  ultimately show ?thesis using u by blast
qed

lemma first_units:
  assumes "toUpperCase u \<in> set SIZE_UNITS"
  shows "first_is (rmatch True size_units (p, u, c)) (prev_of p u, [], c)"
proof -
  from words_complete [OF size_units_props(2), of u p "[]" c] assms
  obtain c' where "(prev_of p u, [], c') \<in> set (rmatch True size_units (p, u, c))"
    unfolding size_units_props(3) by auto
  then obtain st sts where hd: "rmatch True size_units (p, u, c) = st # sts"
    by (cases "rmatch True size_units (p, u, c)") auto
  obtain p' s' c'' where st: "st = (p', s', c'')" by (cases st)
  with hd have mem: "(p', s', c'') \<in> set (rmatch True size_units (p, u, c))" by simp
  from plain_caps [OF size_units_props(1) mem] have c: "c'' = c" .
  from words_sound [OF size_units_props(2) mem] obtain u' where
    u': "u = u' @ s'" "toUpperCase u' \<in> set SIZE_UNITS" "p' = prev_of p u'"
    unfolding size_units_props(3) by blast
  have "prefix (toUpperCase u') (toUpperCase u)" unfolding u'(1) by simp
  from units_prefix_free [OF u'(2) assms this] have "length u' = length u"
    by (metis length_map toUpperCase_def)
  with u'(1) have "s' = []" by (metis append_eq_append_conv append_Nil2)
  with u' c st hd show ?thesis by (simp add: first_is_def)
qed

lemma sizeRegexLocal_body:
  "snd sizeRegexLocal
   = Seq (Grp 1 (Seq (Plus Digit) (Opt (Seq (Chars ''.'') (Plus Digit)))))
       (Seq (Star Space) (Seq (Grp 2 size_units) Eps))"
  "fst sizeRegexLocal = True"
  by (simp_all add: sizeRegexLocal_def seqs_def)

lemma first_number:
  assumes "ip \<noteq> []" and "\<forall>c \<in> set ip. is_digit c" and "\<forall>c \<in> set ds. is_digit c"
    and "case s' of [] \<Rightarrow> True | x # _ \<Rightarrow> \<not> is_digit x \<and> x \<noteq> CHR ''.''"
  shows "first_is (rmatch True (Seq (Plus Digit) (Opt (Seq (Chars ''.'') (Plus Digit))))
                     (p, number_text ip ds @ s', c))
                  (prev_of p (number_text ip ds), s', c)"
proof (cases "ds = []")
  case True
  have nd: "case s' of [] \<Rightarrow> True | x # _ \<Rightarrow> \<not> is_digit x"
    using assms(4) by (cases s') auto
  have 1: "first_is (rmatch True (Plus Digit) (p, ip @ s', c)) (prev_of p ip, s', c)"
    by (rule first_Plus_Digit [OF assms(1,2) nd])
  have "rmatch True (Seq (Chars ''.'') (Plus Digit)) (prev_of p ip, s', c) = []"
    using assms(4) by (cases s') (auto simp: char_eq_def upper_char_def)
  then have 2: "first_is (rmatch True (Opt (Seq (Chars ''.'') (Plus Digit))) (prev_of p ip, s', c))
                  (prev_of p ip, s', c)"
    unfolding Opt_def by (rule first_Alt2) (rule first_Eps)
  from first_Seq [OF 1 2] True show ?thesis by (simp add: number_text_def)
next
  case False
  have dot: "\<not> is_digit CHR ''.''" by (simp add: is_digit_def digit_chars_def)
  have nd: "case s' of [] \<Rightarrow> True | x # _ \<Rightarrow> \<not> is_digit x"
    using assms(4) by (cases s') auto
  have 1: "first_is (rmatch True (Plus Digit) (p, ip @ (CHR ''.'' # ds @ s'), c))
             (prev_of p ip, CHR ''.'' # ds @ s', c)"
    by (rule first_Plus_Digit [OF assms(1,2)]) (simp add: dot)
  have 2: "first_is (rmatch True (Chars ''.'') (prev_of p ip, CHR ''.'' # ds @ s', c))
             (Some CHR ''.'', ds @ s', c)"
    by (simp add: first_is_def char_eq_def)
  have 3: "first_is (rmatch True (Plus Digit) (Some CHR ''.'', ds @ s', c))
             (prev_of (Some CHR ''.'') ds, s', c)"
    by (rule first_Plus_Digit [OF False assms(3) nd])
  have 4: "first_is (rmatch True (Opt (Seq (Chars ''.'') (Plus Digit)))
                       (prev_of p ip, CHR ''.'' # ds @ s', c))
             (prev_of (Some CHR ''.'') ds, s', c)"
    unfolding Opt_def by (rule first_Alt1) (rule first_Seq [OF 2 3])
  have "prev_of (Some CHR ''.'') ds = prev_of p (ip @ CHR ''.'' # ds)"
    using False by (simp add: prev_of_def)
  with first_Seq [OF 1 4] False show ?thesis by (simp add: number_text_def)
qed

lemma exec_sizeRegexLocal:
  assumes "ip \<noteq> []" and "\<forall>c \<in> set ip. is_digit c" and "\<forall>c \<in> set ds. is_digit c"
    and "\<forall>c \<in> set ws. is_space c" and "toUpperCase u \<in> set SIZE_UNITS"
  shows "\<exists>m. exec sizeRegexLocal (number_text ip ds @ ws @ u) = Some m
             \<and> capture m 1 = Some (number_text ip ds) \<and> capture m 2 = Some u"
proof -
  let ?n = "number_text ip ds"
  let ?s = "?n @ ws @ u"
  from unit_first_letter [OF assms(5)] obtain x xs where
    x: "u = x # xs" "\<not> is_digit x" "\<not> is_space x" "x \<noteq> CHR ''.''" by blast
  have nxt: "case ws @ u of [] \<Rightarrow> True | y # _ \<Rightarrow> \<not> is_digit y \<and> y \<noteq> CHR ''.''"
  proof (cases ws)
    case Nil
    then show ?thesis using x by simp
  next
    case (Cons w ws')
    with assms(4) have "is_space w" by simp
    then have "\<not> is_digit w \<and> w \<noteq> CHR ''.''"
      unfolding is_space_def by (elim disjE | simp add: is_digit_def digit_chars_def)+
    with Cons show ?thesis by simp
  qed
  have 1: "first_is (rmatch True (Grp 1 (Seq (Plus Digit) (Opt (Seq (Chars ''.'') (Plus Digit)))))
                       (None, ?s, []))
             (prev_of None ?n, ws @ u, [(1, ?n)])"
    using first_Grp [OF first_number [OF assms(1,2,3) nxt, of None "[]"], of 1] by simp
  have 2: "first_is (rmatch True (Star Space) (prev_of None ?n, ws @ u, [(1, ?n)]))
             (prev_of (prev_of None ?n) ws, u, [(1, ?n)])"
    by (rule first_Star_Space [OF assms(4)]) (simp add: x)
  have 3: "first_is (rmatch True (Grp 2 size_units) (prev_of (prev_of None ?n) ws, u, [(1, ?n)]))
             (prev_of (prev_of (prev_of None ?n) ws) u, [], [(2, u), (1, ?n)])"
    using first_Grp [OF first_units [OF assms(5), of "prev_of (prev_of None ?n) ws" "[(1, ?n)]"], of 2]
    by simp
  from first_Seq [OF 1 first_Seq [OF 2 first_Seq [OF 3 first_Eps]]]
  obtain p' sts where hd: "rmatch (fst sizeRegexLocal) (snd sizeRegexLocal) (prev_of None [], ?s, [])
                           = (p', [], [(2, u), (1, ?n)]) # sts"
    unfolding sizeRegexLocal_body first_is_def by auto
  from search_at [of sizeRegexLocal None "[]" ?s, OF hd]
  show ?thesis by (simp add: exec_def capture_def)
qed

text \<open>
  Rounding to a double leaves the doubles as they are, and with them their products with
  powers of two.
\<close>

lemma flog2_bounds:
  "0 < q \<Longrightarrow> power_int 2 (flog2 q) \<le> q \<and> q < power_int 2 (flog2 q + 1)"
proof (induction q rule: flog2.induct)
  case (1 q)
  show ?case
  proof (cases "2 \<le> q")
    case True
    then have f: "flog2 q = flog2 (q / 2) + 1" using 1(3) by (subst flog2.simps) simp
    from 1(1) [OF _ True] 1(3) have ih: "power_int 2 (flog2 (q / 2)) \<le> q / 2"
      "q / 2 < power_int 2 (flog2 (q / 2) + 1)" by simp_all
    have "power_int (2::rat) (flog2 (q / 2) + 1) = power_int 2 (flog2 (q / 2)) * 2"
      "power_int (2::rat) (flog2 (q / 2) + 1 + 1) = power_int 2 (flog2 (q / 2) + 1) * 2"
      by (simp_all add: power_int_add)
    with ih show ?thesis unfolding f by simp
  next
    case False
    show ?thesis
    proof (cases "q < 1")
      case True
      then have f: "flog2 q = flog2 (2 * q) - 1" using 1(3) False by (subst flog2.simps) simp
      from 1(2) [OF _ False True] 1(3) have ih: "power_int 2 (flog2 (2 * q)) \<le> 2 * q"
        "2 * q < power_int 2 (flog2 (2 * q) + 1)" by simp_all
      have "power_int (2::rat) (flog2 (2 * q)) = power_int 2 (flog2 (2 * q) - 1) * 2"
        "power_int (2::rat) (flog2 (2 * q) + 1) = power_int 2 (flog2 (2 * q) - 1 + 1) * 2"
        by (simp_all add: power_int_add power_int_diff)
      with ih show ?thesis unfolding f by simp
    next
      case ge: False
      then have f: "flog2 q = 0" using 1(3) False by (subst flog2.simps) simp
      from ge False show ?thesis unfolding f by simp
    qed
  qed
qed

lemma flog2_less:
  assumes "0 < q" and "q < power_int 2 b"
  shows "flog2 q < b"
proof (rule ccontr)
  assume "\<not> flog2 q < b"
  then have "power_int (2::rat) b \<le> power_int 2 (flog2 q)"
    by (intro power_int_increasing) simp_all
  with flog2_bounds [OF assms(1)] assms(2) show False by simp
qed

lemma round_half_even_of_int [simp]: "round_half_even (of_int z) = z"
  by (simp add: round_half_even_def)

lemma round_half_even_le:
  assumes "x < of_int n"
  shows "round_half_even x \<le> n"
proof -
  have "\<lfloor>x\<rfloor> < n" using assms by (simp add: floor_less_iff)
  then show ?thesis by (auto simp: round_half_even_def Let_def)
qed

lemma round_half_even_nonneg: "0 \<le> x \<Longrightarrow> 0 \<le> round_half_even x"
  by (auto simp: round_half_even_def Let_def)

lemma binade_ge: "- 1074 \<le> binade q"
  by (simp add: binade_def)

text \<open>A value with at most 53 bits above the smallest exponent is left as it is.\<close>

lemma to_double_dyadic:
  assumes "0 \<le> m" and "m < 2 ^ 53" and "- 1074 \<le> e"
  shows "to_double (of_int m * power_int 2 e) = of_int m * power_int 2 e"
proof (cases "m = 0")
  case True
  then show ?thesis by (simp add: to_double_def)
next
  case False
  define q :: rat where "q = of_int m * power_int 2 e"
  define b where "b = binade q"
  define k where "k = nat (e - b)"
  have p: "0 < power_int (2::rat) e" "0 < power_int (2::rat) b"
    by (simp_all add: zero_less_power_int)
  from False assms(1) have m: "0 < m" by simp
  then have q: "0 < q" using p by (simp add: q_def)
  have "(of_int m :: rat) < 2 ^ 53" using assms(2) by (metis of_int_less_numeral_power_cancel_iff)
  then have "q < 2 ^ 53 * power_int 2 e" using p by (simp add: q_def)
  also have "\<dots> = power_int 2 (e + 53)" by (simp add: power_int_add)
  finally have "flog2 q < e + 53" by (rule flog2_less [OF q])
  with assms(3) have "b \<le> e" by (simp add: b_def binade_def)
  then have e: "e = b + int k" by (simp add: k_def)
  have pe: "power_int (2::rat) e = power_int 2 b * 2 ^ k"
    unfolding e by (simp add: power_int_add)
  have "q / power_int 2 b = of_int (m * 2 ^ k)"
    unfolding q_def pe using p(2) by simp
  then have "round_half_even (q / power_int 2 b) = m * 2 ^ k"
    by (simp only: round_half_even_of_int)
  then have "to_double q = of_int (m * 2 ^ k) * power_int 2 b"
    using q by (simp add: to_double_def b_def)
  also have "\<dots> = q" unfolding q_def pe by simp
  finally show ?thesis unfolding q_def .
qed

lemma to_double_as_dyadic:
  "\<exists>m e. to_double q = of_int m * power_int 2 e \<and> 0 \<le> m \<and> m < 2 ^ 53 \<and> - 1074 \<le> e"
proof (cases "0 < q")
  case False
  then have "to_double q = of_int 0 * power_int 2 0" by (simp add: to_double_def)
  then show ?thesis by (metis (no_types) zero_less_numeral zero_less_power order_refl
        neg_le_0_iff_le zero_le_numeral)
next
  case True
  let ?b = "binade q"
  let ?x = "q / power_int 2 ?b"
  let ?m = "round_half_even ?x"
  have p: "0 < power_int (2::rat) ?b" by (simp add: zero_less_power_int)
  have v: "to_double q = of_int ?m * power_int 2 ?b" using True by (simp add: to_double_def)
  have "flog2 q + 1 - ?b \<le> 53" by (simp add: binade_def)
  then have "power_int (2::rat) (flog2 q + 1 - ?b) \<le> power_int 2 53"
    by (intro power_int_increasing) simp_all
  moreover have "?x < power_int 2 (flog2 q + 1 - ?b)"
    using flog2_bounds [OF True] p by (simp add: power_int_diff divide_strict_right_mono)
  ultimately have "?x < of_int (2 ^ 53)" by simp
  then have le: "?m \<le> 2 ^ 53" by (rule round_half_even_le)
  have ge: "0 \<le> ?m" using True p by (intro round_half_even_nonneg) simp
  show ?thesis
  proof (cases "?m < 2 ^ 53")
    case True
    with v ge binade_ge [of q] show ?thesis by blast
  next
    case False
    with le have "?m = 2 ^ 53" by simp
    then have "to_double q = of_int (2 ^ 52) * power_int 2 (?b + 1)"
      unfolding v by (simp add: power_int_add)
    moreover have "- 1074 \<le> ?b + 1" using binade_ge [of q] by simp
    moreover have "(0::int) \<le> 2 ^ 52" "(2::int) ^ 52 < 2 ^ 53" by simp_all
    ultimately show ?thesis by blast
  qed
qed

lemma to_double_idem: "to_double (to_double q) = to_double q"
proof -
  from to_double_as_dyadic [of q] obtain m e where
    "to_double q = of_int m * power_int 2 e" "0 \<le> m" "m < 2 ^ 53" "- 1074 \<le> e" by blast
  then show ?thesis by (simp only: to_double_dyadic)
qed

lemma to_double_times_power:
  assumes "to_double q = q"
  shows "to_double (q * 2 ^ n) = q * 2 ^ n"
proof -
  from to_double_as_dyadic [of q] assms obtain m e where
    q: "q = of_int m * power_int 2 e" and m: "0 \<le> m" "m < 2 ^ 53" and e: "- 1074 \<le> e"
    by auto
  have "q * 2 ^ n = of_int m * power_int 2 (e + int n)"
    unfolding q by (simp add: power_int_add)
  moreover have "- 1074 \<le> e + int n" using e by simp
  ultimately show ?thesis using to_double_dyadic [OF m, of "e + int n"] by simp
qed

lemma to_double_times_1024: "to_double q = q \<Longrightarrow> to_double (q * 1024) = q * 1024"
  using to_double_times_power [of q 10] by simp

lemma multiply_1024:
  assumes "to_double v = v"
  shows "multiply v 1024 = v * 1024" and "to_double (v * 1024) = v * 1024"
  using to_double_times_1024 [OF assms] by (simp_all add: multiply_def)

lemma parseFloat_parts:
  assumes "takeWhile is_digit s = a" and "dropWhile is_digit s = b"
  shows "parseFloat s =
           (let fp = (case b of [] \<Rightarrow> [] | c # r' \<Rightarrow> if c = CHR ''.'' then takeWhile is_digit r' else [])
            in if a = [] \<and> fp = [] then None
               else Some (to_double (of_nat (digits_val a) + of_nat (digits_val fp) / 10 ^ length fp)))"
  unfolding parseFloat_def assms Let_def by simp

lemma parseFloat_number:
  assumes "ip \<noteq> []" and "\<forall>c \<in> set ip. is_digit c" and "\<forall>c \<in> set ds. is_digit c"
  shows "parseFloat (number_text ip ds) = Some (to_double (decimal_value ip ds))"
proof -
  have dot: "\<not> is_digit CHR ''.''" by (simp add: is_digit_def digit_chars_def)
  have tw: "takeWhile is_digit ds = ds" using assms(3) by simp
  show ?thesis
  proof (cases "ds = []")
    case True
    have 1: "takeWhile is_digit ip = ip" and 2: "dropWhile is_digit ip = []"
      using assms(2) by simp_all
    from parseFloat_parts [OF 1 2] True assms(1) show ?thesis
      by (simp add: number_text_def decimal_value_def digits_val_def Let_def)
  next
    case False
    have 1: "takeWhile is_digit (ip @ CHR ''.'' # ds) = ip"
      and 2: "dropWhile is_digit (ip @ CHR ''.'' # ds) = CHR ''.'' # ds"
      using assms(2) dot by (simp_all add: takeWhile_append2 dropWhile_append2)
    from parseFloat_parts [OF 1 2] False assms(1) show ?thesis
      unfolding Let_def list.case if_True tw
      by (simp add: number_text_def decimal_value_def)
  qed
qed

lemma parseSize_number:
  assumes "ip \<noteq> []" and "\<forall>c \<in> set ip. is_digit c" and "\<forall>c \<in> set ds. is_digit c"
    and "\<forall>c \<in> set ws. is_space c" and "toUpperCase u \<in> set SIZE_UNITS"
  shows "parseSize (number_text ip ds @ ws @ u)
         = Some (to_double (decimal_value ip ds) * 1024 ^ unit_power u)"
proof -
  define v where "v = to_double (decimal_value ip ds)"
  from exec_sizeRegexLocal [OF assms] obtain m where
    m: "exec sizeRegexLocal (number_text ip ds @ ws @ u) = Some m"
    "capture m 1 = Some (number_text ip ds)" "capture m 2 = Some u" by blast
  note pf = parseFloat_number [OF assms(1,2,3), folded v_def]
  have ps: "parseSize (number_text ip ds @ ws @ u) =
              (let unit = toUpperCase u in
               if prefix ''KB'' unit \<or> prefix ''KIB'' unit then Some (multiply v 1024)
               else if prefix ''MB'' unit \<or> prefix ''MIB'' unit
                    then Some (multiply (multiply v 1024) 1024)
               else if prefix ''GB'' unit \<or> prefix ''GIB'' unit
                    then Some (multiply (multiply (multiply v 1024) 1024) 1024)
               else if prefix ''TB'' unit \<or> prefix ''TIB'' unit
                    then Some (multiply (multiply (multiply (multiply v 1024) 1024) 1024) 1024)
               else None)"
    by (simp only: parseSize_def m option.case str_of_def pf Let_def)
  have v0: "to_double v = v" unfolding v_def by (rule to_double_idem)
  note v1 = multiply_1024 [OF v0]
  note v2 = multiply_1024 [OF v1(2)]
  note v3 = multiply_1024 [OF v2(2)]
  note v4 = multiply_1024 [OF v3(2)]
  from assms(5) consider "toUpperCase u = ''TB''" | "toUpperCase u = ''GB''"
    | "toUpperCase u = ''MB''" | "toUpperCase u = ''KB''" | "toUpperCase u = ''TIB''"
    | "toUpperCase u = ''GIB''" | "toUpperCase u = ''MIB''" | "toUpperCase u = ''KIB''"
    unfolding SIZE_UNITS_def by auto
  then show ?thesis
    unfolding ps v_def [symmetric] v1(1) v2(1) v3(1) v4(1)
    by cases (simp_all add: unit_power_def Let_def power_numeral_reduce)
qed

text \<open>
  C9. A decimal numeral, white space or none, and a unit KB, MB, GB, TB, KiB, MiB, GiB or
  TiB in any case parse to the number that \<open>parseFloat\<close> reads from the numeral, the double
  nearest to its value, multiplied by 1024 to the power 1, 2, 3 or 4 of the unit, the
  same for \<open>xB\<close> and \<open>xiB\<close>. When the value of the numeral is a double, as 1.5 and 700
  are, this is the value of the numeral times that power of 1024. The statement is made
  for results up to the largest double.
\<close>

theorem C9_parseSize:
  assumes "ip \<noteq> []" and "\<forall>c \<in> set ip. is_digit c" and "\<forall>c \<in> set ds. is_digit c"
    and "\<forall>c \<in> set ws. is_space c" and "toUpperCase u \<in> set SIZE_UNITS"
    and "decimal_value ip ds * 1024 ^ unit_power u \<le> max_double"
  shows "parseFloat (number_text ip ds) = Some (to_double (decimal_value ip ds))
         \<and> parseSize (number_text ip ds @ ws @ u)
             = Some (to_double (decimal_value ip ds) * 1024 ^ unit_power u)
         \<and> (to_double (decimal_value ip ds) = decimal_value ip ds
              \<longrightarrow> parseSize (number_text ip ds @ ws @ u)
                  = Some (decimal_value ip ds * 1024 ^ unit_power u))"
  using parseFloat_number [OF assms(1,2,3)] parseSize_number [OF assms(1,2,3,4,5)]
  by simp

theorem C9_witness:
  "parseSize ''1.5 GiB'' = Some (15 / 10 * 1024 ^ 3) \<and> parseSize ''700MB'' = Some (700 * 1024 ^ 2)
   \<and> parseSize ''1.5 GiB'' = Some 1610612736 \<and> parseSize ''700MB'' = Some 734003200
   \<and> parseSize ''9007199254740993 KB'' = Some 9223372036854775808"
proof -
  have d: "\<forall>c \<in> set ''1''. is_digit c" "\<forall>c \<in> set ''5''. is_digit c"
    "\<forall>c \<in> set ''700''. is_digit c" "\<forall>c \<in> set []. is_digit c"
    "\<forall>c \<in> set ''9007199254740993''. is_digit c"
    by (simp_all add: is_digit_def digit_chars_def)
  have w: "\<forall>c \<in> set '' ''. is_space c" "\<forall>c \<in> set []. is_space c"
    by (simp_all add: is_space_def)
  have u: "toUpperCase ''GiB'' \<in> set SIZE_UNITS" "toUpperCase ''MB'' \<in> set SIZE_UNITS"
    "toUpperCase ''KB'' \<in> set SIZE_UNITS"
    by (simp_all add: SIZE_UNITS_def upper_char_def)
  have p: "unit_power ''GiB'' = 3" "unit_power ''MB'' = 2" "unit_power ''KB'' = 1"
    by (simp_all add: unit_power_def upper_char_def)
  have v: "decimal_value ''1'' ''5'' = 3 / 2" "decimal_value ''700'' [] = 700"
    "decimal_value ''9007199254740993'' [] = 9007199254740993"
    by (simp_all add: decimal_value_def digits_val_def digit_val_def digit_chars_def)
  have r: "to_double (3 / 2) = 3 / 2" "to_double 700 = 700"
    "to_double 9007199254740993 = 9007199254740992"
    by code_simp+
  have m: "(3 / 2 :: rat) * 1024 ^ 3 \<le> max_double" "(700 :: rat) * 1024 ^ 2 \<le> max_double"
    "(9007199254740993 :: rat) * 1024 ^ 1 \<le> max_double"
    by (simp_all add: max_double_def)
  from C9_parseSize [of "''1''" "''5''" "'' ''" "''GiB''"] d w u m
  have 1: "parseSize ''1.5 GiB'' = Some 1610612736"
    unfolding p v r by (simp add: number_text_def)
  from C9_parseSize [of "''700''" "[]" "[]" "''MB''"] d w u m
  have 2: "parseSize ''700MB'' = Some 734003200"
    unfolding p v r by (simp add: number_text_def)
  from C9_parseSize [of "''9007199254740993''" "[]" "'' ''" "''KB''"] d w u m
  have 3: "parseSize ''9007199254740993 KB'' = Some 9223372036854775808"
    unfolding p v r by (simp add: number_text_def)
  from 1 2 3 show ?thesis by simp
qed

section \<open>The cleaned title\<close>

text \<open>The test \<open>/^\d{4}$/\<close> holds of the texts of four digits, so \<open>implausible\<close> is the test
  of \<open>cleanTitle\<close>, and \<open>cleanTitle\<close> goes through its three results in order.\<close>

lemma rmatch_Digit:
  "rmatch False Digit (p, s, c)
   = (case s of [] \<Rightarrow> [] | x # xs \<Rightarrow> if is_digit x then [(Some x, xs, c)] else [])"
  by (simp add: Digit_def list_ex_iff char_eq_def is_digit_def split: list.splits)

lemma four_digits_at:
  "rmatch False (snd four_digits) (p, s, []) \<noteq> []
   \<longleftrightarrow> p = None \<and> length s = 4 \<and> list_all is_digit s"
proof -
  have "rmatch False (snd four_digits) (p, s, []) \<noteq> []
        \<longleftrightarrow> p = None \<and> (\<exists>a b c d. s = [a, b, c, d] \<and> is_digit a \<and> is_digit b \<and> is_digit c \<and> is_digit d)"
    by (simp add: four_digits_def seqs_def eval_nat_numeral rmatch_Digit split: list.splits) blast
  also have "\<dots> \<longleftrightarrow> p = None \<and> length s = 4 \<and> list_all is_digit s"
    by (auto simp: length_Suc_conv eval_nat_numeral)
  finally show ?thesis .
qed

lemma test_four_digits: "test four_digits s \<longleftrightarrow> length s = 4 \<and> list_all is_digit s"
proof
  assume "test four_digits s"
  then obtain pre suf where s: "s = pre @ suf"
    and m: "rmatch False (snd four_digits) (prev_of None pre, suf, []) \<noteq> []"
    unfolding test_iff by (auto simp: four_digits_def)
  from m have "prev_of None pre = None" "length suf = 4 \<and> list_all is_digit suf"
    unfolding four_digits_at by simp_all
  moreover from this(1) have "pre = []" by (simp add: prev_of_def split: if_splits)
  ultimately show "length s = 4 \<and> list_all is_digit s" using s by simp
next
  assume "length s = 4 \<and> list_all is_digit s"
  then have "rmatch False (snd four_digits) (prev_of None [], s, []) \<noteq> []"
    unfolding four_digits_at by simp
  then show "test four_digits s"
    unfolding test_iff by (intro exI [of _ "[]"] exI [of _ s]) (simp add: four_digits_def)
qed

lemma cleanTitle_cases:
  "cleanTitle ttl pm st =
     (if implausible ttl (primaryClean ttl pm)
      then (if fallbackTitle ttl pm st \<noteq> [] then fallbackTitle ttl pm st else lastResort ttl pm)
      else primaryClean ttl pm)"
proof -
  have i: "((length (primaryClean ttl pm) < 5 \<and> length ttl > 10)
            \<or> test four_digits (primaryClean ttl pm))
           = implausible ttl (primaryClean ttl pm)"
    unfolding implausible_def test_four_digits ..
  have f: "tidy (if truthy_str (releaseGroup pm)
                 then replace_all (strip_pattern (str_of (releaseGroup pm))) '' ''
                        (case year pm of
                           None \<Rightarrow> (if truthy_str st then str_of st else ttl)
                         | Some y \<Rightarrow> if y \<noteq> 0
                                     then replace_all (strip_pattern (dec y)) '' ''
                                            (if truthy_str st then str_of st else ttl)
                                     else (if truthy_str st then str_of st else ttl))
                 else (case year pm of
                         None \<Rightarrow> (if truthy_str st then str_of st else ttl)
                       | Some y \<Rightarrow> if y \<noteq> 0
                                   then replace_all (strip_pattern (dec y)) '' ''
                                          (if truthy_str st then str_of st else ttl)
                                   else (if truthy_str st then str_of st else ttl)))
           = fallbackTitle ttl pm st"
    unfolding fallbackTitle_def withoutReleaseGroup_def withoutYear_def ..
  show ?thesis
    unfolding cleanTitle_def Let_def i f
    by (simp add: lastResort_def withoutReleaseGroup_def)
qed

text \<open>The last resort keeps the first character of a title that begins with text.\<close>

lemma upper_char_sep:
  assumes "upper_char c \<in> set ''._-''"
  shows "upper_char c = c"
proof (cases "map_of (zip ''abcdefghijklmnopqrstuvwxyz'' ''ABCDEFGHIJKLMNOPQRSTUVWXYZ'') c")
  case None
  then show ?thesis unfolding upper_char_def by simp
next
  case (Some u)
  then have "u \<in> set ''ABCDEFGHIJKLMNOPQRSTUVWXYZ''"
    by (meson map_of_SomeD set_zip_rightD)
  then have "u \<notin> set ''._-''" by (elim disjE | simp)+
  with assms show ?thesis unfolding upper_char_def Some by simp
qed

lemma strip_pattern_no_match:
  assumes "\<not> is_space c" and "c \<notin> set ''._-''"
    and "\<not> prefix (toUpperCase t) (toUpperCase (c # cs))"
  shows "rmatch True (snd (strip_pattern t)) (p, c # cs, caps) = []"
proof -
  have u: "upper_char CHR ''.'' = CHR ''.''" "upper_char CHR ''_'' = CHR ''_''"
    "upper_char CHR ''-'' = CHR ''-''" by (simp_all add: upper_char_def)
  have "\<not> list_ex (char_eq True c) ''._-''"
  proof
    assume "list_ex (char_eq True c) ''._-''"
    then have "upper_char c \<in> set ''._-''" by (auto simp: char_eq_def u)
    from upper_char_sep [OF this] this assms(2) show False by simp
  qed
  moreover have "match_chars True t p (c # cs) = None"
    unfolding match_chars_None using assms(3) by (simp add: toUpperCase_def)
  ultimately show ?thesis
    using assms(1) by (simp add: strip_pattern_def seqs_def Opt_def)
qed

lemma trim_Cons_nonempty: "\<not> is_space c \<Longrightarrow> trim (c # xs) \<noteq> []"
  by (simp add: trim_def dropWhile_eq_Nil_conv)

lemma lastResort_nonempty:
  assumes "beginsWithText ttl pm"
  shows "lastResort ttl pm \<noteq> []"
proof -
  from assms obtain c cs where t: "ttl = c # cs" and c: "\<not> is_space c" "c \<notin> set ''._-''"
    and r: "truthy_str (releaseGroup pm)
            \<Longrightarrow> \<not> prefix (toUpperCase (str_of (releaseGroup pm))) (toUpperCase ttl)"
    unfolding beginsWithText_def by (cases ttl) auto
  show ?thesis
  proof (cases "truthy_str (releaseGroup pm)")
    case False
    then show ?thesis using c(1) by (simp add: lastResort_def withoutReleaseGroup_def t trim_Cons_nonempty)
  next
    case True
    have "fst (strip_pattern (str_of (releaseGroup pm)))" by (simp add: strip_pattern_def)
    with strip_pattern_no_match [OF c r [OF True, unfolded t], of None "[]"]
    have "replace_all (strip_pattern (str_of (releaseGroup pm))) [] (c # cs)
          = c # replace_from (strip_pattern (str_of (releaseGroup pm))) [] (Some c) cs"
      by (simp add: replace_all_def)
    then show ?thesis
      using True c(1) by (simp add: lastResort_def withoutReleaseGroup_def t trim_Cons_nonempty)
  qed
qed

text \<open>
  The release group that the parser stores: the first group of \<open>RELEASE_GROUP\<close>, which
  consumes letters, digits and hyphens only and at least one of them.
\<close>

lemma consumed_refl: "consumed P st st"
  by (simp add: consumed_def)

lemma consumed_trans: "consumed P a b \<Longrightarrow> consumed P b c \<Longrightarrow> consumed P a c"
  unfolding consumed_def by (metis append.assoc list_all_append)

lemma star_iter_consumed:
  assumes "\<And>st st'. st' \<in> set (f st) \<Longrightarrow> consumed P st st'"
    and "st' \<in> set (star_iter f k st)"
  shows "consumed P st st'"
  using assms(2)
proof (induction k arbitrary: st)
  case 0
  then show ?case by (simp add: consumed_refl)
next
  case (Suc k)
  from Suc.prems consider "st' = st"
    | mid where "mid \<in> set (f st)" "st' \<in> set (star_iter f k mid)"
    by (auto split: if_splits)
  then show ?case
  proof cases
    case 1
    then show ?thesis by (simp add: consumed_refl)
  next
    case 2
    from assms(1) [OF 2(1)] Suc.IH [OF 2(2)] show ?thesis
      by (rule consumed_trans)
  qed
qed

lemma rmatch_made_of:
  assumes "made_of P r"
    and cl: "\<And>x c. P c \<Longrightarrow> upper_char x = upper_char c \<Longrightarrow> P x"
    and "st' \<in> set (rmatch True r st)"
  shows "consumed P st st'"
  using assms(1,3)
proof (induction r arbitrary: st st')
  case Eps
  then show ?case by (simp add: consumed_refl)
next
  case (Chars w)
  obtain p s c where st: "st = (p, s, c)" by (cases st)
  from Chars st obtain p' s' where m: "match_chars True w p s = Some (p', s')" "st' = (p', s', c)"
    by (cases "match_chars True w p s") auto
  from m(1) obtain u where u: "s = u @ s'" "map upper_char u = map upper_char w"
    unfolding match_chars_Some by auto
  have "list_all P u"
    unfolding list_all_length
  proof (intro allI impI)
    fix i assume i: "i < length u"
    from u(2) have l: "length u = length w" by (metis length_map)
    from u(2) i l have "upper_char (u ! i) = upper_char (w ! i)" by (metis nth_map)
    moreover from Chars.prems(1) i l have "P (w ! i)" by (simp add: list_all_length)
    ultimately show "P (u ! i)" by (rule cl [rotated])
  qed
  with u(1) st m(2) show ?case by (auto simp: consumed_def)
next
  case (Cls cs)
  obtain p s c where st: "st = (p, s, c)" by (cases st)
  from Cls.prems(2) st obtain x xs where x: "s = x # xs" "list_ex (char_eq True x) cs"
    "st' = (Some x, xs, c)"
    by (cases s) (auto split: if_splits)
  from x(2) obtain c0 where "c0 \<in> set cs" "upper_char x = upper_char c0"
    by (auto simp: list_ex_iff char_eq_def)
  with Cls.prems(1) have "P x" by (auto simp: list_all_iff intro: cl)
  with x st show ?case by (auto simp: consumed_def intro: exI [of _ "[x]"])
next
  case (Seq a b)
  from Seq.prems obtain mid where m: "mid \<in> set (rmatch True a st)" "st' \<in> set (rmatch True b mid)"
    by auto
  from Seq.IH(1) [OF _ m(1)] Seq.IH(2) [OF _ m(2)] Seq.prems(1) show ?case
    by (auto intro: consumed_trans)
next
  case (Alt a b)
  from Alt.prems(2) consider "st' \<in> set (rmatch True a st)" | "st' \<in> set (rmatch True b st)"
    by auto
  then show ?case
  proof cases
    case 1
    from Alt.IH(1) [OF _ 1] Alt.prems(1) show ?thesis by simp
  next
    case 2
    from Alt.IH(2) [OF _ 2] Alt.prems(1) show ?thesis by simp
  qed
next
  case (Star r)
  from Star.prems(2) have "st' \<in> set (star_iter (\<lambda>st'. rmatch True r st') (length (fst (snd st))) st)"
    by simp
  moreover have "\<And>a b. b \<in> set (rmatch True r a) \<Longrightarrow> consumed P a b"
    using Star.IH Star.prems(1) by simp
  ultimately show ?case by (rule star_iter_consumed [rotated])
qed simp_all

lemma plain_char_closed:
  assumes "plain_char c" and "upper_char x = upper_char c"
  shows "plain_char x"
proof -
  have lower: "\<And>a. a \<in> set ''abcdefghijklmnopqrstuvwxyz'' \<Longrightarrow> plain_char a"
    unfolding plain_char_def alnum_chars_def by (elim disjE | simp)+
  have upper: "\<And>a. a \<in> set ''ABCDEFGHIJKLMNOPQRSTUVWXYZ'' \<Longrightarrow> plain_char a"
    unfolding plain_char_def alnum_chars_def by (elim disjE | simp)+
  have up: "\<And>a. plain_char a \<Longrightarrow> plain_char (upper_char a)"
  proof -
    fix a assume a: "plain_char a"
    show "plain_char (upper_char a)"
    proof (cases "map_of (zip ''abcdefghijklmnopqrstuvwxyz'' ''ABCDEFGHIJKLMNOPQRSTUVWXYZ'') a")
      case None
      show ?thesis unfolding upper_char_def None using a by simp
    next
      case (Some u)
      then have "u \<in> set ''ABCDEFGHIJKLMNOPQRSTUVWXYZ''" by (meson map_of_SomeD set_zip_rightD)
      from upper [OF this] show ?thesis unfolding upper_char_def Some by simp
    qed
  qed
  show ?thesis
  proof (cases "map_of (zip ''abcdefghijklmnopqrstuvwxyz'' ''ABCDEFGHIJKLMNOPQRSTUVWXYZ'') x")
    case None
    have "upper_char x = x" unfolding upper_char_def None by simp
    with assms(2) up [OF assms(1)] show ?thesis by simp
  next
    case (Some u)
    then have "x \<in> set ''abcdefghijklmnopqrstuvwxyz''" by (meson map_of_SomeD set_zip_leftD)
    then show ?thesis by (rule lower)
  qed
qed

lemma RELEASE_GROUP_match:
  assumes "exec RELEASE_GROUP w = Some m"
  shows "group1_or_text m \<noteq> [] \<and> list_all plain_char (group1_or_text m)"
proof -
  let ?A = "Alt Bol (Alt Space (Cls ''.-_[''))"
  let ?C = "Cls alnum_chars"
  let ?G = "Seq (Seq ?C (Star ?C)) (Alt (Seq (Chars ''-'') (Seq ?C (Star ?C))) Eps)"
  have body: "snd RELEASE_GROUP = Seq ?A (Seq (Grp 1 ?G) (Seq Eol Eps))" "fst RELEASE_GROUP = True"
    by (simp_all add: RELEASE_GROUP_def seqs_def Plus_def Opt_def)
  have mo: "made_of plain_char ?G"
    by (simp add: plain_char_def list_all_iff)
  from search_Some_found [OF assms [unfolded exec_def]] obtain pre suf p' s' caps sts where
    r: "rmatch True (snd RELEASE_GROUP) (prev_of None pre, suf, []) = (p', s', caps) # sts"
    and g: "m_groups m = caps"
    unfolding found_at_def body(2) by auto
  from r have "(p', s', caps) \<in> set (rmatch True (snd RELEASE_GROUP) (prev_of None pre, suf, []))"
    by simp
  then obtain st1 st2 where 1: "st1 \<in> set (rmatch True ?A (prev_of None pre, suf, []))"
    and 2: "st2 \<in> set (rmatch True (Grp 1 ?G) st1)"
    and 3: "(p', s', caps) \<in> set (rmatch True (Seq Eol Eps) st2)"
    unfolding body(1) rmatch_Seq_mem by blast
  obtain p1 s1 c1 where st1: "st1 = (p1, s1, c1)" by (cases st1)
  obtain p2 s2 c2 where st2: "st2 = (p2, s2, c2)" by (cases st2)
  from 3 st2 have e: "c2 = caps" by (auto split: if_splits)
  from 2 [unfolded st1 st2 rmatch_Grp_mem] obtain c0 where
    4: "(p2, s2, c0) \<in> set (rmatch True ?G (p1, s1, c1))"
    and c2: "c2 = (1, take (length s1 - length s2) s1) # c0" by blast
  have "consumed plain_char (p1, s1, c1) (p2, s2, c0)"
    by (rule rmatch_made_of [OF mo _ 4]) (rule plain_char_closed)
  then obtain u where u: "s1 = u @ s2" "list_all plain_char u" by (auto simp: consumed_def)
  have ne: "u \<noteq> []"
  proof -
    from 4 obtain mid2 where ab: "mid2 \<in> set (rmatch True (Seq ?C (Star ?C)) (p1, s1, c1))"
      and c: "(p2, s2, c0) \<in> set (rmatch True (Alt (Seq (Chars ''-'') (Seq ?C (Star ?C))) Eps) mid2)"
      unfolding rmatch_Seq_mem [of _ _ "Seq ?C (Star ?C)"] by blast
    from ab obtain mid1 where a: "mid1 \<in> set (rmatch True ?C (p1, s1, c1))"
      and b: "mid2 \<in> set (rmatch True (Star ?C) mid1)"
      unfolding rmatch_Seq_mem by blast
    from a obtain x xs where x: "s1 = x # xs" "fst (snd mid1) = xs"
      by (cases s1) (auto split: if_splits)
    from rmatch_suffix [OF c] rmatch_suffix [OF b] have "suffix s2 xs"
      unfolding x(2) by (simp add: suffix_order.trans)
    then have "length s2 \<le> length xs" by (rule suffix_length_le)
    with u(1) x(1) show ?thesis by auto
  qed
  from u(1) have "take (length s1 - length s2) s1 = u" by simp
  with g e c2 have "m_groups m = (1, u) # c0" by simp
  then have "capture m 1 = Some u" by (simp add: capture_def)
  with ne have "group1_or_text m = u" by (simp add: group1_or_text_def truthy_str_def str_of_def)
  with ne u(2) show ?thesis by simp
qed

lemma plainReleaseGroup_step9:
  assumes "plainReleaseGroup m"
  shows "plainReleaseGroup (step9_releaseGroup w m)"
proof (cases "exec RELEASE_GROUP w")
  case None
  with assms show ?thesis by (simp add: step9_releaseGroup_def extractFirstMatch_def)
next
  case (Some r)
  from RELEASE_GROUP_match [OF Some] have p: "list_all plain_char (group1_or_text r)" by simp
  then have "list_all plain_char (drop 1 (group1_or_text r))"
    by (metis append_take_drop_id list_all_append)
  with p assms show ?thesis
    by (simp add: step9_releaseGroup_def extractFirstMatch_def Some Let_def plainReleaseGroup_def
          str_of_def)
qed

text \<open>No other step touches the release group, so \<open>cleanTitle\<close> is called with a plain one.\<close>

lemma releaseGroup_assign_field:
  "f \<noteq> F_releaseGroup \<Longrightarrow> releaseGroup (assign_field f v m) = releaseGroup m"
  by (cases "(f, v, m)" rule: assign_field.cases) simp_all

lemma releaseGroup_extractFirstMatch:
  "f \<noteq> F_releaseGroup \<Longrightarrow> releaseGroup (extractFirstMatch regex f tr w m) = releaseGroup m"
  by (simp add: extractFirstMatch_def Let_def releaseGroup_assign_field split: option.splits)

lemma releaseGroup_extractAllMatches:
  "f \<noteq> F_releaseGroup \<Longrightarrow> releaseGroup (extractAllMatches regex f u tr w m) = releaseGroup m"
  by (simp add: extractAllMatches_def Let_def releaseGroup_assign_field)

lemma releaseGroup_steps:
  "releaseGroup (step1_year y w m) = releaseGroup m"
  "releaseGroup (step2_episodeInfo w m) = releaseGroup m"
  "releaseGroup (step3_resolution w m) = releaseGroup m"
  "releaseGroup (step4_qualitySource w m) = releaseGroup m"
  "releaseGroup (step5_videoCodec w m) = releaseGroup m"
  "releaseGroup (step6_audioCodec w m) = releaseGroup m"
  "releaseGroup (step7_hdr_3d w m) = releaseGroup m"
  "releaseGroup (step8_languages w m) = releaseGroup m"
  "releaseGroup (step10_size w m) = releaseGroup m"
  by (simp_all add: step1_year_def step2_episodeInfo_def step3_resolution_def
        step4_qualitySource_def step5_videoCodec_def step6_audioCodec_def step7_hdr_3d_def
        step8_languages_def step10_size_def Let_def
        releaseGroup_extractFirstMatch releaseGroup_extractAllMatches
        split: option.splits audio.splits)

lemma cleanedTitle_parseTorrentTitle:
  "cleanedTitle (parseTorrentTitle ttl st y) = Some (cleanTitle ttl (metadataForCleaning ttl y) st)"
  by (simp add: parseTorrentTitle_def metadataForCleaning_def step11_cleanedTitle_def
        step12_year_def split: option.splits)

lemma plainReleaseGroup_parser: "plainReleaseGroup (metadataForCleaning ttl y)"
proof -
  have "plainReleaseGroup m" if "releaseGroup m = None" for m
    using that by (simp add: plainReleaseGroup_def str_of_def)
  then have "plainReleaseGroup (step8_languages ttl (step7_hdr_3d ttl (step6_audioCodec ttl
               (step5_videoCodec ttl (step4_qualitySource ttl (step3_resolution ttl
                 (step2_episodeInfo ttl (step1_year y ttl (newMetadata ttl)))))))))"
    by (simp add: releaseGroup_steps newMetadata_def)
  from plainReleaseGroup_step9 [OF this] show ?thesis
    unfolding metadataForCleaning_def plainReleaseGroup_def releaseGroup_steps .
qed

text \<open>
  C2, as the code has it. \<open>cleanTitle\<close> returns the primary cleaning result unless that is
  implausible; then it returns the fallback when that is not empty, and the last resort
  otherwise. For a title longer than 10 characters the result is not empty when the last
  resort is not, which is so when the title begins with text. The release group is taken
  to be plain, as it is in all the metadata that the parser builds: the source puts it
  into a pattern unescaped.
\<close>

theorem C2_cleanTitle_fallback:
  assumes "plainReleaseGroup pm"
  shows "(\<not> implausible ttl (primaryClean ttl pm) \<longrightarrow> cleanTitle ttl pm st = primaryClean ttl pm)
       \<and> (implausible ttl (primaryClean ttl pm) \<and> fallbackTitle ttl pm st \<noteq> []
            \<longrightarrow> cleanTitle ttl pm st = fallbackTitle ttl pm st)
       \<and> (implausible ttl (primaryClean ttl pm) \<and> fallbackTitle ttl pm st = []
            \<longrightarrow> cleanTitle ttl pm st = lastResort ttl pm)
       \<and> (10 < length ttl \<and> lastResort ttl pm \<noteq> [] \<longrightarrow> cleanTitle ttl pm st \<noteq> [])
       \<and> (beginsWithText ttl pm \<longrightarrow> lastResort ttl pm \<noteq> [])"
proof (intro conjI impI)
  assume a: "10 < length ttl \<and> lastResort ttl pm \<noteq> []"
  show "cleanTitle ttl pm st \<noteq> []"
  proof (cases "implausible ttl (primaryClean ttl pm)")
    case True
    then show ?thesis using a by (simp add: cleanTitle_cases)
  next
    case False
    with a have "5 \<le> length (primaryClean ttl pm)" by (auto simp: implausible_def)
    then have "primaryClean ttl pm \<noteq> []" by auto
    with False show ?thesis by (simp add: cleanTitle_cases)
  qed
qed (simp_all add: cleanTitle_cases lastResort_nonempty)

text \<open>
  C2, as the spec words it, fails: the title \<open>-\<close> is cleaned to the empty string with no
  fallback, the title \<open>abcd abcd abcd\<close> with the release group \<open>abcd\<close> is emptied by the
  last resort, and a title of 11 spaces is trimmed to nothing.
\<close>

theorem C2_counterexample:
  "''-'' \<noteq> [] \<and> cleanedTitle (parseTorrentTitle ''-'' None None) = Some []
   \<and> cleanedTitle (parseTorrentTitle ''abcd abcd abcd'' None None) = Some []
   \<and> cleanTitle ''           '' (newMetadata ''           '') None = []"
proof -
  have 1: "cleanedTitle (parseTorrentTitle ''-'' None None) = Some []" by code_simp
  have 2: "cleanedTitle (parseTorrentTitle ''abcd abcd abcd'' None None) = Some []" by code_simp
  have 3: "cleanTitle ''           '' (newMetadata ''           '') None = []" by code_simp
  from 1 2 3 show ?thesis by simp
qed

theorem C2_witness:
  "plainReleaseGroup sampleMeta
   \<and> implausible ''2023.1080p.x264'' (primaryClean ''2023.1080p.x264'' sampleMeta)
   \<and> fallbackTitle ''2023.1080p.x264'' sampleMeta None = ''1080p''
   \<and> cleanTitle ''2023.1080p.x264'' sampleMeta None = ''1080p''
   \<and> beginsWithText ''2023.1080p.x264'' sampleMeta
   \<and> lastResort ''2023.1080p.x264'' sampleMeta \<noteq> []
   \<and> \<not> implausible ''Movie.Title'' (primaryClean ''Movie.Title'' (newMetadata ''Movie.Title''))
   \<and> cleanTitle ''Movie.Title'' (newMetadata ''Movie.Title'') None
       = primaryClean ''Movie.Title'' (newMetadata ''Movie.Title'')
   \<and> plainReleaseGroup (groupMeta ''abcd abcd abcd'' ''abcd'')
   \<and> fallbackTitle ''abcd abcd abcd'' (groupMeta ''abcd abcd abcd'' ''abcd'') None = []
   \<and> cleanTitle ''abcd abcd abcd'' (groupMeta ''abcd abcd abcd'' ''abcd'') None
       = lastResort ''abcd abcd abcd'' (groupMeta ''abcd abcd abcd'' ''abcd'')"
proof -
  have p: "plainReleaseGroup sampleMeta" "plainReleaseGroup (newMetadata ''Movie.Title'')"
    "plainReleaseGroup (groupMeta ''abcd abcd abcd'' ''abcd'')"
    by code_simp+
  have i: "implausible ''2023.1080p.x264'' (primaryClean ''2023.1080p.x264'' sampleMeta)"
    by code_simp
  have f: "fallbackTitle ''2023.1080p.x264'' sampleMeta None = ''1080p''" by code_simp
  have b: "beginsWithText ''2023.1080p.x264'' sampleMeta" by code_simp
  have n: "\<not> implausible ''Movie.Title'' (primaryClean ''Movie.Title'' (newMetadata ''Movie.Title''))"
    by code_simp
  have i2: "implausible ''abcd abcd abcd''
              (primaryClean ''abcd abcd abcd'' (groupMeta ''abcd abcd abcd'' ''abcd''))"
    by code_simp
  have f2: "fallbackTitle ''abcd abcd abcd'' (groupMeta ''abcd abcd abcd'' ''abcd'') None = []"
    by code_simp
  from C2_cleanTitle_fallback [OF p(1), of "''2023.1080p.x264''" None] i f b
  have 1: "cleanTitle ''2023.1080p.x264'' sampleMeta None = ''1080p''"
    "lastResort ''2023.1080p.x264'' sampleMeta \<noteq> []" by simp_all
  from C2_cleanTitle_fallback [OF p(2), of "''Movie.Title''" None] n
  have 2: "cleanTitle ''Movie.Title'' (newMetadata ''Movie.Title'') None
           = primaryClean ''Movie.Title'' (newMetadata ''Movie.Title'')" by blast
  from C2_cleanTitle_fallback [OF p(3), of "''abcd abcd abcd''" None] i2 f2
  have 3: "cleanTitle ''abcd abcd abcd'' (groupMeta ''abcd abcd abcd'' ''abcd'') None
           = lastResort ''abcd abcd abcd'' (groupMeta ''abcd abcd abcd'' ''abcd'')" by blast
  from p i f b n f2 1 2 3 show ?thesis by blast
qed

end
